theory Spec2Isabelle
  imports
    Complex_Main
    "HOL-Library.Multiset"
    "HOL-Library.List_Lexorder"
    "HOL-Library.Product_Lexorder"
    "HOL-Library.Option_ord"
begin

section \<open>Strings as Python sees them\<close>

text \<open>
  The source is \<^verbatim>\<open>src/agent_module/agent.py\<close>. A Python \<^verbatim>\<open>str\<close> is a sequence of
  code points; here it is a \<^typ>\<open>string\<close>, with a \<^typ>\<open>char\<close> read as a code point below
  256. \<^verbatim>\<open>len\<close> is \<^const>\<open>length\<close> and \<^verbatim>\<open>+\<close> is \<^const>\<open>append\<close>.
\<close>

definition code_point :: "char \<Rightarrow> nat" where
  "code_point c = of_char c"

text \<open>\<^verbatim>\<open>str.lower()\<close>: the upper-case letters below 256 are A-Z and U+00C0..U+00DE without
  the multiplication sign U+00D7; each maps to the code point 32 above it.\<close>

definition lower_char :: "char \<Rightarrow> char" where
  "lower_char c =
     (let n = code_point c
      in if (65 \<le> n \<and> n \<le> 90) \<or> (192 \<le> n \<and> n \<le> 222 \<and> n \<noteq> 215)
         then char_of (n + 32) else c)"

definition lower :: "string \<Rightarrow> string" where
  "lower s = map lower_char s"

text \<open>\<^verbatim>\<open>str.isspace()\<close> on one code point below 256.\<close>

definition is_space :: "char \<Rightarrow> bool" where
  "is_space c = (code_point c \<in> set [9, 10, 11, 12, 13, 28, 29, 30, 31, 32, 133, 160])"

text \<open>\<^verbatim>\<open>str.split()\<close> with no argument: the maximal runs of non-space characters, in
  order; \<open>cur\<close> is the word being read.\<close>

fun split_from :: "string \<Rightarrow> string \<Rightarrow> string list" where
  "split_from cur [] = (if cur = [] then [] else [cur])"
| "split_from cur (c # cs) =
     (if is_space c
      then (if cur = [] then split_from [] cs else cur # split_from [] cs)
      else split_from (cur @ [c]) cs)"

definition split :: "string \<Rightarrow> string list" where
  "split s = split_from [] s"

text \<open>\<^verbatim>\<open>str.strip()\<close> with no argument.\<close>

definition strip :: "string \<Rightarrow> string" where
  "strip s = rev (dropWhile is_space (rev (dropWhile is_space s)))"

text \<open>\<^verbatim>\<open>sep.join(xs)\<close>.\<close>

fun join :: "string \<Rightarrow> string list \<Rightarrow> string" where
  "join sep [] = []"
| "join sep [x] = x"
| "join sep (x # y # ys) = x @ sep @ join sep (y # ys)"

text \<open>\<^verbatim>\<open>s.count(sub)\<close>: the number of non-overlapping occurrences of \<open>sub\<close> in \<open>s\<close>,
  scanning from the left; for the empty \<open>sub\<close> Python answers \<^verbatim>\<open>len(s) + 1\<close>.\<close>

function count_from :: "string \<Rightarrow> string \<Rightarrow> nat" where
  "count_from sub s =
     (if sub = [] \<or> length s < length sub then 0
      else if take (length sub) s = sub then Suc (count_from sub (drop (length sub) s))
      else count_from sub (tl s))"
  by pat_completeness auto
termination
proof (relation "measure (\<lambda>(sub, s). length s)")
  fix sub s :: string
  assume "\<not> (sub = [] \<or> length s < length sub)"
  then have "0 < length sub" "0 < length s" by auto
  then show "((sub, drop (length sub) s), (sub, s)) \<in> measure (\<lambda>(sub, s). length s)"
    and "((sub, tl s), (sub, s)) \<in> measure (\<lambda>(sub, s). length s)"
    by auto
qed simp

definition count :: "string \<Rightarrow> string \<Rightarrow> int" where
  "count s sub = (if sub = [] then int (length s) + 1 else int (count_from sub s))"

section \<open>The content extractor: \<^verbatim>\<open>get_article_content\<close>\<close>

text \<open>
  Exceptions are values. Everything the source catches with \<^verbatim>\<open>except Exception\<close> is a
  \<open>py_exn\<close>; \<open>TypeError\<close> is the one the sorts of the orchestrator can raise, the other
  two stand for what the network and the parsers raise.
\<close>

datatype py_exn = TypeError | RequestError | ParseError

text \<open>
  What the outside world answers for one URL. \<open>newspaper_text\<close> is the outcome of
  \<^verbatim>\<open>Article(url).download(); parse(); article.text\<close> (lines 27-31): the text, or the exception
  one of the calls raised. \<open>requests_get\<close> is the outcome of lines 37-42: the parsed and
  cleaned document, or the exception raised on the way. Of the document the source only
  reads \<^verbatim>\<open>select_one(selector).get_text(separator='\n', strip=True)\<close> (\<open>None\<close>: no element
  matches) and the \<^verbatim>\<open>get_text()\<close> of every \<^verbatim>\<open>p\<close> element.
\<close>

record soup =
  select_one :: "string \<Rightarrow> string option"
  find_all_p :: "string list"

record page =
  newspaper_text :: "py_exn + string"
  requests_get :: "py_exn + soup"

text \<open>The calls to the outside that one extraction makes, in order.\<close>

datatype call = ArticleParse | RequestsGet | SelectOne string | FindAllP

definition selectors :: "string list" where
  "selectors =
     [''article'', ''.article-content'', ''.story-content'',
      ''[role=\"main\"]'', ''.main-content'', ''#main-content'',
      ''.post-content'', ''.entry-content'']"

text \<open>The loop of lines 53-58: the first selector whose element has more than 100
  characters of text ends the function; \<open>calls\<close> collects the calls made.\<close>

fun try_selectors :: "soup \<Rightarrow> string list \<Rightarrow> call list \<Rightarrow> call list \<times> string option" where
  "try_selectors sp [] calls = (calls, None)"
| "try_selectors sp (selector # rest) calls =
     (case select_one sp selector of
        None \<Rightarrow> try_selectors sp rest (calls @ [SelectOne selector])
      | Some article_content \<Rightarrow>
          if length article_content > 100 then (calls @ [SelectOne selector], Some article_content)
          else try_selectors sp rest (calls @ [SelectOne selector]))"

text \<open>Lines 25-69. The \<^verbatim>\<open>try\<close> spans the whole body, so an exception of either
  retrieval goes to the handler and from there to \<^verbatim>\<open>return ""\<close>.\<close>

definition get_article_content_log :: "page \<Rightarrow> call list \<times> string" where
  "get_article_content_log p =
     (case newspaper_text p of
        Inl e \<Rightarrow> ([ArticleParse], [])
      | Inr content \<Rightarrow>
          if content \<noteq> [] \<and> length content > 100 then ([ArticleParse], content)
          else
            (case requests_get p of
               Inl e \<Rightarrow> ([ArticleParse, RequestsGet], [])
             | Inr sp \<Rightarrow>
                 (case try_selectors sp selectors [ArticleParse, RequestsGet] of
                    (calls, Some article_content) \<Rightarrow> (calls, article_content)
                  | (calls, None) \<Rightarrow>
                      (let content = join [CHR 0x0A] (map strip (find_all_p sp))
                       in if content \<noteq> [] \<and> length content > 100
                          then (calls @ [FindAllP], content)
                          else (calls @ [FindAllP], [])))))"

definition get_article_content :: "page \<Rightarrow> string" where
  "get_article_content p = snd (get_article_content_log p)"

definition calls_made :: "page \<Rightarrow> call list" where
  "calls_made p = fst (get_article_content_log p)"

section \<open>Feed entries and scored articles\<close>

text \<open>
  \<^verbatim>\<open>time.struct_time\<close> is a tuple of nine integers, compared as tuples are: field by
  field from the left. As a value it is never empty, hence always true in a condition.
\<close>

type_synonym struct_time = "int list"

text \<open>The \<^verbatim>\<open>content\<close> field of an entry is a string, a list (each item given here by its
  \<^verbatim>\<open>str(item)\<close>) or some other value (given by its \<^verbatim>\<open>str\<close>).\<close>

datatype content_field = Str string | Fragments "string list" | Other string

text \<open>
  An entry is a dictionary; the source reads five keys of it, always with \<^verbatim>\<open>get\<close>. A field
  is \<open>None\<close> when the key is absent. The two timestamps can be present with the value
  \<^verbatim>\<open>None\<close> (\<open>Some None\<close>): \<^verbatim>\<open>x.get(k, default)\<close> then answers \<^verbatim>\<open>None\<close>, not the default.
\<close>

record entry =
  entry_title :: "string option"
  entry_content :: "content_field option"
  entry_link :: "string option"
  published_parsed :: "struct_time option option"
  updated_parsed :: "struct_time option option"

text \<open>\<^verbatim>\<open>d.get(k)\<close> for a key whose value may be \<^verbatim>\<open>None\<close>.\<close>

definition get_or_none :: "'a option option \<Rightarrow> 'a option" where
  "get_or_none v = (case v of None \<Rightarrow> None | Some x \<Rightarrow> x)"

record match_details =
  title_matches :: int
  content_matches :: int
  recency_bonus :: int

record scored_article =
  title :: string
  content :: string
  link :: string
  publish_date :: "struct_time option"
  relevance_score :: int
  details :: match_details

text \<open>
  The outside world of one run: what \<^verbatim>\<open>feedparser.parse\<close> answers for a feed URL (the
  entries, or the exception it raised), what the network answers for an article URL, the
  reading of \<^verbatim>\<open>time.time()\<close> in the task of a link, and \<^verbatim>\<open>time.mktime\<close>. The two times are
  floating-point numbers in the source and real numbers here, and \<^verbatim>\<open>time.mktime\<close> is taken to
  return for every timestamp of a feed, so that a task always returns.
\<close>

record world =
  feedparser_parse :: "string \<Rightarrow> py_exn + entry list"
  article_page :: "string \<Rightarrow> page"
  time_time :: "string \<Rightarrow> real"
  time_mktime :: "struct_time \<Rightarrow> real"

section \<open>The relevance scorer: \<^verbatim>\<open>fetch_article_content\<close>\<close>

text \<open>Lines 73-80.\<close>

definition title_of :: "entry \<Rightarrow> string" where
  "title_of e = (case entry_title e of None \<Rightarrow> [] | Some t \<Rightarrow> t)"

definition initial_content_of :: "entry \<Rightarrow> string" where
  "initial_content_of e =
     (case entry_content e of
        None \<Rightarrow> []
      | Some (Str s) \<Rightarrow> s
      | Some (Fragments items) \<Rightarrow> join '' '' items
      | Some (Other s) \<Rightarrow> s)"

text \<open>Line 83: \<^verbatim>\<open>entry.get('published_parsed') or entry.get('updated_parsed')\<close>.\<close>

definition publish_date_of :: "entry \<Rightarrow> struct_time option" where
  "publish_date_of e =
     (case get_or_none (published_parsed e) of
        Some t \<Rightarrow> Some t
      | None \<Rightarrow> get_or_none (updated_parsed e))"

text \<open>Lines 95-96: the loop adds ten times the count of each keyword.\<close>

definition title_score_of :: "string \<Rightarrow> string list \<Rightarrow> int" where
  "title_score_of title_lower keywords =
     foldl (\<lambda>title_score keyword. title_score + count title_lower keyword * 10) 0 keywords"

text \<open>Lines 105-106.\<close>

definition content_score_of :: "string \<Rightarrow> string list \<Rightarrow> int" where
  "content_score_of content_lower keywords =
     foldl (\<lambda>content_score keyword. content_score + count content_lower keyword) 0 keywords"

text \<open>Lines 99-101.\<close>

definition final_content_of :: "world \<Rightarrow> entry \<Rightarrow> string \<Rightarrow> string" where
  "final_content_of w e lnk =
     (let final_content = get_article_content (article_page w lnk)
      in if final_content = [] then initial_content_of e else final_content)"

text \<open>Lines 109-114.\<close>

definition recency_score_of :: "world \<Rightarrow> string \<Rightarrow> struct_time option \<Rightarrow> int" where
  "recency_score_of w lnk pd =
     (case pd of
        None \<Rightarrow> 0
      | Some t \<Rightarrow>
          (let age_hours = (time_time w lnk - time_mktime w t) / 3600
           in if age_hours < 24 then 5 else if age_hours < 168 then 3 else 0))"

definition total_score_of :: "world \<Rightarrow> entry \<Rightarrow> string \<Rightarrow> string list \<Rightarrow> int" where
  "total_score_of w e lnk keywords =
     title_score_of (lower (title_of e)) keywords
     + content_score_of (lower (final_content_of w e lnk)) keywords
     + recency_score_of w lnk (publish_date_of e)"

text \<open>Lines 71-132; \<open>None\<close> is Python's \<^verbatim>\<open>None\<close>.\<close>

definition fetch_article_content :: "world \<Rightarrow> entry \<Rightarrow> string list \<Rightarrow> scored_article option" where
  "fetch_article_content w e keywords =
     (case entry_link e of
        None \<Rightarrow> None
      | Some lnk \<Rightarrow>
          if lnk = [] then None
          else
            (let title_score = title_score_of (lower (title_of e)) keywords;
                 final_content = final_content_of w e lnk;
                 content_score = content_score_of (lower final_content) keywords;
                 recency_score = recency_score_of w lnk (publish_date_of e);
                 total_score = title_score + content_score + recency_score
             in if total_score > 0
                then Some \<lparr>title = title_of e, content = final_content, link = lnk,
                       publish_date = publish_date_of e, relevance_score = total_score,
                       details = \<lparr>title_matches = title_score div 10,
                                  content_matches = content_score,
                                  recency_bonus = recency_score\<rparr>\<rparr>
                else None))"

section \<open>The orchestrator: \<^verbatim>\<open>fetch_and_filter_articles\<close>\<close>

definition feed_urls :: "string list" where
  "feed_urls =
     [''https://rss.nytimes.com/services/xml/rss/nyt/Science.xml'',
      ''https://feeds.bbci.co.uk/news/science_and_environment/rss.xml'']"

definition max_articles_per_feed :: nat where
  "max_articles_per_feed = 15"

definition max_results :: nat where
  "max_results = 10"

text \<open>
  \<^verbatim>\<open>sorted(xs, key=k, reverse=True)\<close> where no comparison raises: descending keys, and equal
  keys keep their order (Python reverses, sorts stably and reverses again).
\<close>

definition sort_descending :: "('a \<Rightarrow> 'k::linorder) \<Rightarrow> 'a list \<Rightarrow> 'a list" where
  "sort_descending k xs = rev (sort_key k (rev xs))"

text \<open>Line 195: \<^verbatim>\<open>x.get('published_parsed', x.get('updated_parsed'))\<close>.\<close>

definition entry_sort_key :: "entry \<Rightarrow> struct_time option" where
  "entry_sort_key x =
     (case published_parsed x of
        Some v \<Rightarrow> v
      | None \<Rightarrow> get_or_none (updated_parsed x))"

text \<open>
  Lines 193-197. Python compares the keys with \<^verbatim>\<open><\<close>, and \<^verbatim>\<open><\<close> raises \<^verbatim>\<open>TypeError\<close> as
  soon as one side is \<^verbatim>\<open>None\<close> (also for two \<^verbatim>\<open>None\<close>). A sort of two or more elements
  compares every element at least once, so it raises exactly when some key is \<^verbatim>\<open>None\<close>;
  a list of at most one element is returned with no comparison.
\<close>

definition sorted_entries :: "entry list \<Rightarrow> py_exn + entry list" where
  "sorted_entries xs =
     (if 2 \<le> length xs \<and> list_ex (\<lambda>x. entry_sort_key x = None) xs then Inl TypeError
      else Inr (sort_descending entry_sort_key xs))"

text \<open>Lines 201-206: the state is \<^verbatim>\<open>seen_links\<close> and the entries submitted so far, in the
  order of submission.\<close>

fun submit_entries :: "string set \<times> entry list \<Rightarrow> entry list \<Rightarrow> string set \<times> entry list" where
  "submit_entries (seen_links, futures) [] = (seen_links, futures)"
| "submit_entries (seen_links, futures) (e # es) =
     (case entry_link e of
        None \<Rightarrow> submit_entries (seen_links, futures) es
      | Some lnk \<Rightarrow>
          if lnk = [] \<or> lnk \<in> seen_links then submit_entries (seen_links, futures) es
          else submit_entries (insert lnk seen_links, futures @ [e]) es)"

text \<open>Lines 190-206, one round of the loop over the feeds: an exception of the parse or of
  the sort goes to \<^verbatim>\<open>continue\<close>.\<close>

definition schedule_feed :: "world \<Rightarrow> string set \<times> entry list \<Rightarrow> string \<Rightarrow> string set \<times> entry list" where
  "schedule_feed w st url =
     (case feedparser_parse w url of
        Inl ex \<Rightarrow> st
      | Inr feed_entries \<Rightarrow>
          (case sorted_entries (take max_articles_per_feed feed_entries) of
             Inl ex \<Rightarrow> st
           | Inr entries \<Rightarrow> submit_entries st entries))"

definition schedule_feeds :: "world \<Rightarrow> string set \<times> entry list \<Rightarrow> string list \<Rightarrow> string set \<times> entry list" where
  "schedule_feeds w st urls = foldl (schedule_feed w) st urls"

text \<open>The entries submitted to the pool by one run, in the order of submission.\<close>

definition scheduled :: "world \<Rightarrow> entry list" where
  "scheduled w = snd (schedule_feeds w ({}, []) feed_urls)"

text \<open>
  Lines 208-211. \<^verbatim>\<open>as_completed\<close> yields the futures in the order in which they finish:
  \<open>completion\<close> lists the positions of the futures in that order, and is a permutation of
  the positions.
\<close>

definition valid_completion :: "nat \<Rightarrow> nat list \<Rightarrow> bool" where
  "valid_completion n completion = (sort completion = [0..<n])"

definition as_completed :: "'a list \<Rightarrow> nat list \<Rightarrow> 'a list" where
  "as_completed futures completion = map (\<lambda>i. futures ! i) completion"

definition collect_matched :: "scored_article option list \<Rightarrow> scored_article list" where
  "collect_matched results = List.map_filter (\<lambda>result. result) results"

text \<open>Lines 217-221: the key of the final sort. The result dictionary always has the key
  \<^verbatim>\<open>publish_date\<close> (its value may be \<^verbatim>\<open>None\<close>) and never the key \<^verbatim>\<open>is_primary_source\<close>.\<close>

definition ranking_key :: "scored_article \<Rightarrow> int \<times> struct_time option \<times> bool" where
  "ranking_key x = (relevance_score x, publish_date x, False)"

text \<open>
  Python compares two such tuples at the first component where they differ. With different
  scores the dates are not looked at. With equal scores, two \<^verbatim>\<open>None\<close> dates are equal and
  the comparison goes on to the flags; a \<^verbatim>\<open>None\<close> date against a \<^verbatim>\<open>struct_time\<close> is
  compared with \<^verbatim>\<open><\<close>, which raises \<^verbatim>\<open>TypeError\<close>. A comparison sort cannot place two such
  articles without comparing a dated with an undated article of that score, so the sort raises
  exactly when two articles have the same score and only one of them has a date.
\<close>

definition incomparable :: "scored_article \<Rightarrow> scored_article \<Rightarrow> bool" where
  "incomparable a b =
     (relevance_score a = relevance_score b \<and> (publish_date a = None) \<noteq> (publish_date b = None))"

definition sort_matched :: "scored_article list \<Rightarrow> py_exn + scored_article list" where
  "sort_matched xs =
     (if list_ex (\<lambda>a. list_ex (\<lambda>b. incomparable a b) xs) xs then Inl TypeError
      else Inr (sort_descending ranking_key xs))"

text \<open>What the function returns: dictionaries of two shapes.\<close>

datatype result = Message string | Scored scored_article

definition no_articles_message :: "string \<Rightarrow> string" where
  "no_articles_message query =
     ''No articles found containing the query '' @ [CHR 0x27] @ query @ [CHR 0x27] @ ''.''"

text \<open>Lines 213-224, on the results in the order of completion.\<close>

definition rank_results :: "string \<Rightarrow> scored_article option list \<Rightarrow> py_exn + result list" where
  "rank_results query results =
     (let matched_articles = collect_matched results
      in if matched_articles = [] then Inr [Message (no_articles_message query)]
         else
           (case sort_matched matched_articles of
              Inl ex \<Rightarrow> Inl ex
            | Inr sorted_articles \<Rightarrow> Inr (map Scored (take max_results sorted_articles))))"

definition keywords_of :: "string \<Rightarrow> string list" where
  "keywords_of query = split (lower query)"

text \<open>Lines 135-224. A run is fixed by the world, the order of completion and the query;
  \<open>Inl\<close> is an exception that leaves the function.\<close>

definition fetch_and_filter_articles :: "world \<Rightarrow> nat list \<Rightarrow> string \<Rightarrow> py_exn + result list" where
  "fetch_and_filter_articles w completion query =
     (let keywords = keywords_of query;
          futures = map (\<lambda>e. fetch_article_content w e keywords) (scheduled w)
      in rank_results query (as_completed futures completion))"

section \<open>Notions the properties are stated with\<close>

text \<open>The number of case-insensitive occurrences of a keyword in a text.\<close>

definition occurrences_ci :: "string \<Rightarrow> string \<Rightarrow> int" where
  "occurrences_ci text keyword = count (lower text) (lower keyword)"

text \<open>The links of the scored articles of an output, in order.\<close>

definition result_links :: "result list \<Rightarrow> string list" where
  "result_links rs = List.map_filter (\<lambda>r. case r of Scored a \<Rightarrow> Some (link a) | Message m \<Rightarrow> None) rs"

text \<open>The entries of one feed that reach the inner loop, in its order; none when the parse
  or the sort raised.\<close>

definition feed_window :: "world \<Rightarrow> string \<Rightarrow> entry list" where
  "feed_window w url =
     (case feedparser_parse w url of
        Inl ex \<Rightarrow> []
      | Inr feed_entries \<Rightarrow>
          (case sorted_entries (take max_articles_per_feed feed_entries) of
             Inl ex \<Rightarrow> []
           | Inr entries \<Rightarrow> entries))"

definition candidates :: "world \<Rightarrow> entry list" where
  "candidates w = concat (map (feed_window w) feed_urls)"

text \<open>The entries of a list that claim a link not in \<open>seen\<close> and not claimed earlier in
  the list.\<close>

fun new_claims :: "string set \<Rightarrow> entry list \<Rightarrow> entry list" where
  "new_claims seen [] = []"
| "new_claims seen (e # es) =
     (case entry_link e of
        None \<Rightarrow> new_claims seen es
      | Some lnk \<Rightarrow>
          if lnk = [] \<or> lnk \<in> seen then new_claims seen es
          else e # new_claims (insert lnk seen) es)"

definition claimed_links :: "entry list \<Rightarrow> string set" where
  "claimed_links es = {lnk. Some lnk \<in> set (map entry_link es)}"

text \<open>The window the specification describes: all entries of the feed sorted by time,
  newest first, then capped.\<close>

definition most_recent_window :: "entry list \<Rightarrow> entry list" where
  "most_recent_window feed_entries =
     take max_articles_per_feed (sort_descending entry_sort_key feed_entries)"

text \<open>The score the specification gives an entry: ten per keyword occurrence in the
  title, one per occurrence in the content, plus the recency bonus.\<close>

definition claimed_score :: "world \<Rightarrow> entry \<Rightarrow> string \<Rightarrow> string list \<Rightarrow> int" where
  "claimed_score w e lnk keywords =
     10 * (\<Sum>k\<leftarrow>keywords. occurrences_ci (title_of e) k)
     + (\<Sum>k\<leftarrow>keywords. occurrences_ci (final_content_of w e lnk) k)
     + recency_score_of w lnk (publish_date_of e)"

text \<open>The matched articles of a run, in the order of submission.\<close>

definition matched_in_order :: "world \<Rightarrow> string \<Rightarrow> scored_article list" where
  "matched_in_order w query =
     collect_matched (map (\<lambda>e. fetch_article_content w e (keywords_of query)) (scheduled w))"

text \<open>The list \<^verbatim>\<open>matched_articles\<close> of a run at line 213, in the order of completion.\<close>

definition matched_as_completed :: "world \<Rightarrow> nat list \<Rightarrow> string \<Rightarrow> scored_article list" where
  "matched_as_completed w completion query =
     collect_matched
       (as_completed (map (\<lambda>e. fetch_article_content w e (keywords_of query)) (scheduled w))
          completion)"

text \<open>The sort keys of the matched articles, largest first, and whether the key in the last
  place of the output is also the key of the first article left out.\<close>

definition ranked_keys :: "world \<Rightarrow> string \<Rightarrow> (int \<times> struct_time option \<times> bool) list" where
  "ranked_keys w query = rev (sort (map ranking_key (matched_in_order w query)))"

definition tie_at_cut :: "world \<Rightarrow> string \<Rightarrow> bool" where
  "tie_at_cut w query =
     (max_results < length (ranked_keys w query)
      \<and> ranked_keys w query ! (max_results - 1) = ranked_keys w query ! max_results)"

text \<open>The recency bonus of an entry when it is scored.\<close>

definition entry_recency :: "world \<Rightarrow> entry \<Rightarrow> int" where
  "entry_recency w e =
     (case entry_link e of
        None \<Rightarrow> 0
      | Some lnk \<Rightarrow> recency_score_of w lnk (publish_date_of e))"

section \<open>Concrete worlds\<close>

definition unreachable_page :: page where
  "unreachable_page = \<lparr>newspaper_text = Inl RequestError, requests_get = Inl RequestError\<rparr>"

definition plain_entry :: "string \<Rightarrow> string \<Rightarrow> struct_time option option \<Rightarrow> entry" where
  "plain_entry t l d =
     \<lparr>entry_title = Some t, entry_content = None, entry_link = Some l,
      published_parsed = d, updated_parsed = None\<rparr>"

definition new_year_2020 :: struct_time where
  "new_year_2020 = [2020, 1, 1, 0, 0, 0, 2, 1, 0]"

text \<open>A world with the given entries in the two feeds, no article page reachable, and every
  article \<open>age\<close> seconds old when it is scored.\<close>

definition world_of :: "(py_exn + entry list) \<Rightarrow> (py_exn + entry list) \<Rightarrow> real \<Rightarrow> world" where
  "world_of first_feed second_feed age =
     \<lparr>feedparser_parse =
        (\<lambda>url. if url = ''https://rss.nytimes.com/services/xml/rss/nyt/Science.xml''
               then first_feed else second_feed),
      article_page = (\<lambda>url. unreachable_page),
      time_time = (\<lambda>lnk. age),
      time_mktime = (\<lambda>t. 0)\<rparr>"

text \<open>One undated entry in the first feed, one dated entry in the second, both a year old
  or more and both with the keyword once in the title.\<close>

definition undated_world :: world where
  "undated_world =
     world_of (Inr [plain_entry ''Ocean'' ''a'' None])
       (Inr [plain_entry ''Ocean'' ''b'' (Some (Some new_year_2020))]) 40000000"

text \<open>Sixteen entries in the first feed, each newer than the one before it.\<close>

definition numbered_entry :: "nat \<Rightarrow> entry" where
  "numbered_entry i =
     plain_entry ''t'' (replicate (Suc i) CHR ''a'')
       (Some (Some [2000 + int i, 1, 1, 0, 0, 0, 0, 1, 0]))"

definition long_feed :: "entry list" where
  "long_feed = map numbered_entry [0..<16]"

definition long_world :: world where
  "long_world = world_of (Inr long_feed) (Inl RequestError) 40000000"

text \<open>Eleven entries with the same title and the same date, under different links.\<close>

definition tied_entry :: "nat \<Rightarrow> entry" where
  "tied_entry i = plain_entry ''x'' (replicate (Suc i) CHR ''a'') (Some (Some new_year_2020))"

definition tie_world :: world where
  "tie_world = world_of (Inr (map tied_entry [0..<11])) (Inl RequestError) 40000000"

definition tied_article :: "nat \<Rightarrow> scored_article" where
  "tied_article i =
     \<lparr>title = ''x'', content = [], link = replicate (Suc i) CHR ''a'',
      publish_date = Some new_year_2020, relevance_score = 10,
      details = \<lparr>title_matches = 1, content_matches = 0, recency_bonus = 0\<rparr>\<rparr>"

text \<open>One entry, an hour old.\<close>

definition recent_world :: world where
  "recent_world =
     world_of (Inr [plain_entry ''Tides'' ''a'' (Some (Some new_year_2020))]) (Inr []) 3600"

text \<open>Both feeds fail to parse.\<close>

definition dead_world :: world where
  "dead_world = world_of (Inl ParseError) (Inl RequestError) 0"

text \<open>Scenario A of the specification: the title has each keyword once, the body has
  ``warming'' three times and ``ocean'' once, and the entry is two hours old.\<close>

definition scenario_a_entry :: entry where
  "scenario_a_entry =
     \<lparr>entry_title = Some ''Ocean Warming Accelerates'',
      entry_content = Some (Str ''Warming of the ocean: warming is faster, WARMING goes on.''),
      entry_link = Some ''https://example.org/a'',
      published_parsed = Some (Some new_year_2020), updated_parsed = None\<rparr>"

definition scenario_a_world :: world where
  "scenario_a_world = world_of (Inr [scenario_a_entry]) (Inr []) 7200"

text \<open>Scenario B: both feeds carry the link \<open>a\<close>; the second feed also has a link of
  its own.\<close>

definition shared_link_world :: world where
  "shared_link_world =
     world_of (Inr [plain_entry ''Ocean'' ''a'' (Some (Some new_year_2020))])
       (Inr [plain_entry ''Ocean ocean'' ''a'' (Some (Some new_year_2020)),
             plain_entry ''Ocean ocean ocean'' ''b'' (Some (Some new_year_2020))]) 40000000"

text \<open>The first feed has an undated entry beside a dated one; the second feed is well
  formed.\<close>

definition mixed_feed :: "entry list" where
  "mixed_feed =
     [plain_entry ''Ocean'' ''a'' (Some (Some new_year_2020)), plain_entry ''Ocean'' ''b'' None]"

definition mixed_world :: world where
  "mixed_world =
     world_of (Inr mixed_feed) (Inr [plain_entry ''Ocean'' ''c'' (Some (Some new_year_2020))])
       40000000"

text \<open>Pages: the primary strategy yields fifty characters; the second retrieval fails, or
  it succeeds with a document that has no content region and one short paragraph.\<close>

definition short_page_get_fails :: page where
  "short_page_get_fails =
     \<lparr>newspaper_text = Inr (replicate 50 CHR ''x''), requests_get = Inl RequestError\<rparr>"

definition short_page_thin_document :: page where
  "short_page_thin_document =
     \<lparr>newspaper_text = Inr (replicate 50 CHR ''x''),
      requests_get = Inr \<lparr>select_one = (\<lambda>selector. None), find_all_p = ['' brief '']\<rparr>\<rparr>"

section \<open>Properties of the extractor\<close>

lemma try_selectors_Some:
  "try_selectors sp sels calls = (calls', Some t) \<Longrightarrow> length t > 100"
  by (induction sels arbitrary: calls) (auto split: option.splits if_splits)

text \<open>
  Claim C9. Whatever the outside world answers, the extractor returns the empty string or a
  string of more than 100 characters: no result of 1 to 100 characters reaches the caller.
\<close>

theorem get_article_content_empty_or_substantial:
  "get_article_content p = [] \<or> length (get_article_content p) > 100"
  unfolding get_article_content_def get_article_content_log_def
  by (auto simp: Let_def split: sum.splits prod.splits option.splits dest: try_selectors_Some)

section \<open>Properties of the scorer\<close>

lemma foldl_add_sum_list:
  "foldl (\<lambda>acc k. acc + f k) a ks = a + sum_list (map f ks)" for a :: int
  by (induction ks arbitrary: a) auto

lemma title_score_of_sum: "title_score_of t ks = 10 * (\<Sum>k\<leftarrow>ks. count t k)"
  unfolding title_score_of_def
  by (simp add: foldl_add_sum_list sum_list_mult_const)

lemma content_score_of_sum: "content_score_of t ks = (\<Sum>k\<leftarrow>ks. count t k)"
  unfolding content_score_of_def by (simp add: foldl_add_sum_list)

lemma count_nonneg: "0 \<le> count s sub"
  by (simp add: count_def)

lemma lower_char_idem: "lower_char (lower_char c) = lower_char c"
proof -
  have "of_char c < (256 :: nat)" by simp
  then show ?thesis
    unfolding lower_char_def code_point_def Let_def by auto
qed

lemma split_from_chars: "k \<in> set (split_from cur s) \<Longrightarrow> set k \<subseteq> set cur \<union> set s"
proof (induction s arbitrary: cur)
  case Nil
  then show ?case by (auto split: if_splits)
next
  case (Cons c cs)
  show ?case
  proof (cases "is_space c")
    case True
    with Cons.prems have "k = cur \<or> k \<in> set (split_from [] cs)"
      by (auto split: if_splits)
    with Cons.IH [of "[]"] show ?thesis by auto
  next
    case False
    with Cons.prems have "k \<in> set (split_from (cur @ [c]) cs)" by simp
    with Cons.IH [of "cur @ [c]"] show ?thesis by auto
  qed
qed

lemma keyword_lower: "k \<in> set (keywords_of query) \<Longrightarrow> lower k = k"
proof -
  assume "k \<in> set (keywords_of query)"
  then have "set k \<subseteq> set (lower query)"
    unfolding keywords_of_def split_def using split_from_chars by fastforce
  then have "\<And>c. c \<in> set k \<Longrightarrow> lower_char c = c"
    unfolding lower_def using lower_char_idem by auto
  then show ?thesis unfolding lower_def by (simp add: map_idI)
qed

lemma valid_completion_mset:
  "valid_completion (length xs) c \<Longrightarrow> mset (as_completed xs c) = mset xs"
proof -
  assume "valid_completion (length xs) c"
  then have "mset c = mset [0..<length xs]"
    unfolding valid_completion_def by (metis mset_sort)
  then have "image_mset ((!) xs) (mset c) = image_mset ((!) xs) (mset [0..<length xs])"
    by simp
  then have "mset (map ((!) xs) c) = mset (map ((!) xs) [0..<length xs])"
    by simp
  then show ?thesis unfolding as_completed_def by (simp add: map_nth)
qed

lemma keyword_occurrences:
  "(\<Sum>k\<leftarrow>keywords_of query. occurrences_ci t k) = (\<Sum>k\<leftarrow>keywords_of query. count (lower t) k)"
  by (rule arg_cong [where f = sum_list]) (simp add: occurrences_ci_def keyword_lower)

lemma recency_score_values: "recency_score_of w lnk pd \<in> {0, 3, 5}"
  unfolding recency_score_of_def by (simp add: Let_def split: option.splits)

lemma claimed_score_total:
  "claimed_score w e lnk (keywords_of query) = total_score_of w e lnk (keywords_of query)"
  unfolding claimed_score_def total_score_of_def
  by (simp add: keyword_occurrences title_score_of_sum content_score_of_sum)

lemma fetch_article_content_Some:
  assumes "fetch_article_content w e keywords = Some a"
  shows "\<exists>lnk. entry_link e = Some lnk \<and> lnk \<noteq> [] \<and> link a = lnk
           \<and> title a = title_of e \<and> content a = final_content_of w e lnk
           \<and> publish_date a = publish_date_of e
           \<and> relevance_score a = total_score_of w e lnk keywords
           \<and> 0 < relevance_score a
           \<and> title_matches (details a) = title_score_of (lower (title_of e)) keywords div 10
           \<and> content_matches (details a) = content_score_of (lower (final_content_of w e lnk)) keywords
           \<and> recency_bonus (details a) = recency_score_of w lnk (publish_date_of e)"
  using assms unfolding fetch_article_content_def total_score_of_def
  by (auto simp: Let_def split: option.splits if_splits)

lemma fetch_article_content_None:
  assumes "entry_link e = Some lnk" "lnk \<noteq> []"
  shows "fetch_article_content w e keywords = None \<longleftrightarrow> total_score_of w e lnk keywords \<le> 0"
  using assms unfolding fetch_article_content_def total_score_of_def
  by (auto simp: Let_def)

lemma collect_matched_set: "set (collect_matched rs) = {a. Some a \<in> set rs}"
  unfolding collect_matched_def List.map_filter_def by force

lemma sort_descending_mset: "mset (sort_descending k xs) = mset xs"
  unfolding sort_descending_def by simp

lemma sort_descending_set: "set (sort_descending k xs) = set xs"
  unfolding sort_descending_def by simp

lemma sort_matched_Inr: "sort_matched xs = Inr ys \<Longrightarrow> ys = sort_descending ranking_key xs"
  unfolding sort_matched_def by (auto split: if_splits)

lemma rank_results_Scored:
  assumes "rank_results query rs = Inr out" "Scored a \<in> set out"
  shows "Some a \<in> set rs"
proof -
  from assms obtain s where s: "sort_matched (collect_matched rs) = Inr s"
    and out: "out = map Scored (take max_results s)"
    unfolding rank_results_def by (auto simp: Let_def split: if_splits sum.splits)
  from out assms(2) have "a \<in> set (take max_results s)" by auto
  then have "a \<in> set s" by (rule in_set_takeD)
  with sort_matched_Inr [OF s] have "a \<in> set (collect_matched rs)"
    by (simp add: sort_descending_set)
  then show ?thesis by (simp add: collect_matched_set)
qed

lemma output_from_scorer:
  assumes "valid_completion (length (scheduled w)) completion"
    and "fetch_and_filter_articles w completion query = Inr out"
    and "Scored a \<in> set out"
  shows "\<exists>e \<in> set (scheduled w). fetch_article_content w e (keywords_of query) = Some a"
proof -
  let ?futures = "map (\<lambda>e. fetch_article_content w e (keywords_of query)) (scheduled w)"
  from assms(2,3) have "Some a \<in> set (as_completed ?futures completion)"
    unfolding fetch_and_filter_articles_def by (auto simp: Let_def dest: rank_results_Scored)
  moreover have "mset (as_completed ?futures completion) = mset ?futures"
    using assms(1) by (intro valid_completion_mset) simp
  ultimately have "Some a \<in> set ?futures" by (metis set_mset_mset)
  then show ?thesis by auto
qed

text \<open>
  Claim C1. For an entry with a link and the keywords of a query, the scorer returns
  \<open>None\<close> exactly when the score 10 * title matches + content matches + recency bonus is
  at most 0; otherwise it returns an article whose \<open>relevance_score\<close> is that sum of its
  own match details, where the title matches and the content matches are the
  case-insensitive occurrence counts of the keywords, summed over the keywords. Every
  article in the output of a run has a positive score that obeys the same formula.
\<close>

theorem relevance_score_formula:
  "(entry_link e = Some lnk \<and> lnk \<noteq> [] \<longrightarrow>
      (case fetch_article_content w e (keywords_of query) of
         None \<Rightarrow> claimed_score w e lnk (keywords_of query) \<le> 0
       | Some a \<Rightarrow>
           0 < claimed_score w e lnk (keywords_of query)
           \<and> relevance_score a = claimed_score w e lnk (keywords_of query)
           \<and> relevance_score a =
               10 * title_matches (details a) + content_matches (details a)
               + recency_bonus (details a)
           \<and> title_matches (details a) = (\<Sum>k\<leftarrow>keywords_of query. occurrences_ci (title a) k)
           \<and> content_matches (details a) = (\<Sum>k\<leftarrow>keywords_of query. occurrences_ci (content a) k)
           \<and> recency_bonus (details a) \<in> {0, 3, 5}))
   \<and> (valid_completion (length (scheduled w)) completion
        \<and> fetch_and_filter_articles w completion query = Inr out \<and> Scored b \<in> set out \<longrightarrow>
        0 < relevance_score b
        \<and> relevance_score b =
            10 * title_matches (details b) + content_matches (details b)
            + recency_bonus (details b)
        \<and> title_matches (details b) = (\<Sum>k\<leftarrow>keywords_of query. occurrences_ci (title b) k)
        \<and> content_matches (details b) = (\<Sum>k\<leftarrow>keywords_of query. occurrences_ci (content b) k))"
proof -
  have formula:
    "0 < relevance_score a
     \<and> relevance_score a = claimed_score w e l (keywords_of query)
     \<and> relevance_score a =
         10 * title_matches (details a) + content_matches (details a) + recency_bonus (details a)
     \<and> title_matches (details a) = (\<Sum>k\<leftarrow>keywords_of query. occurrences_ci (title a) k)
     \<and> content_matches (details a) = (\<Sum>k\<leftarrow>keywords_of query. occurrences_ci (content a) k)
     \<and> recency_bonus (details a) \<in> {0, 3, 5}"
    if "fetch_article_content w e (keywords_of query) = Some a" "entry_link e = Some l"
    for a e l
  proof -
    from fetch_article_content_Some [OF that(1)] that(2)
    have f: "title a = title_of e" "content a = final_content_of w e l"
      "relevance_score a = total_score_of w e l (keywords_of query)"
      "0 < relevance_score a"
      "title_matches (details a) = title_score_of (lower (title_of e)) (keywords_of query) div 10"
      "content_matches (details a) =
         content_score_of (lower (final_content_of w e l)) (keywords_of query)"
      "recency_bonus (details a) = recency_score_of w l (publish_date_of e)"
      by auto
    show ?thesis
      using f recency_score_values [of w l "publish_date_of e"]
      by (simp add: claimed_score_total keyword_occurrences title_score_of_sum
          content_score_of_sum total_score_of_def)
  qed
  have scorer: "case fetch_article_content w e (keywords_of query) of
         None \<Rightarrow> claimed_score w e lnk (keywords_of query) \<le> 0
       | Some a \<Rightarrow>
           0 < claimed_score w e lnk (keywords_of query)
           \<and> relevance_score a = claimed_score w e lnk (keywords_of query)
           \<and> relevance_score a =
               10 * title_matches (details a) + content_matches (details a)
               + recency_bonus (details a)
           \<and> title_matches (details a) = (\<Sum>k\<leftarrow>keywords_of query. occurrences_ci (title a) k)
           \<and> content_matches (details a) = (\<Sum>k\<leftarrow>keywords_of query. occurrences_ci (content a) k)
           \<and> recency_bonus (details a) \<in> {0, 3, 5}"
    if link: "entry_link e = Some lnk" "lnk \<noteq> []"
  proof (cases "fetch_article_content w e (keywords_of query)")
    case None
    with fetch_article_content_None [OF link, of w "keywords_of query"] show ?thesis
      by (simp add: claimed_score_total)
  next
    case (Some a)
    with formula [OF Some link(1)] show ?thesis by simp
  qed
  have in_output: "0 < relevance_score b
        \<and> relevance_score b =
            10 * title_matches (details b) + content_matches (details b)
            + recency_bonus (details b)
        \<and> title_matches (details b) = (\<Sum>k\<leftarrow>keywords_of query. occurrences_ci (title b) k)
        \<and> content_matches (details b) = (\<Sum>k\<leftarrow>keywords_of query. occurrences_ci (content b) k)"
    if run: "valid_completion (length (scheduled w)) completion"
      "fetch_and_filter_articles w completion query = Inr out" "Scored b \<in> set out"
  proof -
    from output_from_scorer [OF run] obtain e' where
      e': "fetch_article_content w e' (keywords_of query) = Some b" by blast
    from fetch_article_content_Some [OF e'] obtain l where "entry_link e' = Some l" by blast
    from formula [OF e' this] show ?thesis by simp
  qed
  from scorer in_output show ?thesis by blast
qed

theorem relevance_score_formula_witness:
  "fetch_article_content scenario_a_world scenario_a_entry (keywords_of ''ocean warming'')
     = Some \<lparr>title = ''Ocean Warming Accelerates'',
             content = ''Warming of the ocean: warming is faster, WARMING goes on.'',
             link = ''https://example.org/a'', publish_date = Some new_year_2020,
             relevance_score = 29,
             details = \<lparr>title_matches = 2, content_matches = 4, recency_bonus = 5\<rparr>\<rparr>
   \<and> claimed_score scenario_a_world scenario_a_entry ''https://example.org/a''
        (keywords_of ''ocean warming'') = 29
   \<and> fetch_and_filter_articles scenario_a_world [0] ''ocean warming''
     = Inr [Scored \<lparr>title = ''Ocean Warming Accelerates'',
             content = ''Warming of the ocean: warming is faster, WARMING goes on.'',
             link = ''https://example.org/a'', publish_date = Some new_year_2020,
             relevance_score = 29,
             details = \<lparr>title_matches = 2, content_matches = 4, recency_bonus = 5\<rparr>\<rparr>]"
proof -
  let ?a = "\<lparr>title = ''Ocean Warming Accelerates'',
             content = ''Warming of the ocean: warming is faster, WARMING goes on.'',
             link = ''https://example.org/a'', publish_date = Some new_year_2020,
             relevance_score = 29,
             details = \<lparr>title_matches = 2, content_matches = 4, recency_bonus = 5\<rparr>\<rparr>"
  have scored: "fetch_article_content scenario_a_world scenario_a_entry
      (keywords_of ''ocean warming'') = Some ?a"
    by code_simp
  have link: "entry_link scenario_a_entry = Some ''https://example.org/a''"
    "''https://example.org/a'' \<noteq> []"
    by (simp_all add: scenario_a_entry_def)
  have valid: "valid_completion (length (scheduled scenario_a_world)) [0]"
    by code_simp
  have run: "fetch_and_filter_articles scenario_a_world [0] ''ocean warming'' = Inr [Scored ?a]"
    by code_simp
  from relevance_score_formula [of scenario_a_entry "''https://example.org/a''"
      scenario_a_world "''ocean warming''" "[0]" "[Scored ?a]" ?a] link scored valid run
  show ?thesis by simp
qed

section \<open>Properties of the scheduling pass\<close>

lemma claimed_links_Cons:
  "claimed_links (e # es) =
     (case entry_link e of None \<Rightarrow> claimed_links es | Some l \<Rightarrow> insert l (claimed_links es))"
  unfolding claimed_links_def by (auto split: option.splits)

lemma claimed_links_Nil: "claimed_links [] = {}"
  unfolding claimed_links_def by simp

lemma claimed_links_append: "claimed_links (xs @ ys) = claimed_links xs \<union> claimed_links ys"
  unfolding claimed_links_def by auto

lemma submit_entries_new_claims:
  "submit_entries (seen, futures) es =
     (seen \<union> claimed_links (new_claims seen es), futures @ new_claims seen es)"
proof (induction es arbitrary: seen futures)
  case Nil
  show ?case by (simp add: claimed_links_Nil)
next
  case (Cons e es)
  show ?case
  proof (cases "entry_link e")
    case None
    with Cons.IH show ?thesis by simp
  next
    case (Some l)
    with Cons.IH [of seen futures] Cons.IH [of "insert l seen" "futures @ [e]"]
    show ?thesis by (simp add: claimed_links_Cons)
  qed
qed

lemma new_claims_append:
  "new_claims seen (xs @ ys) =
     new_claims seen xs @ new_claims (seen \<union> claimed_links (new_claims seen xs)) ys"
proof (induction xs arbitrary: seen)
  case Nil
  show ?case by (simp add: claimed_links_Nil)
next
  case (Cons e xs)
  show ?case
  proof (cases "entry_link e")
    case None
    with Cons.IH show ?thesis by simp
  next
    case (Some l)
    with Cons.IH [of seen] Cons.IH [of "insert l seen"]
    show ?thesis by (simp add: claimed_links_Cons)
  qed
qed

lemma schedule_feed_window:
  "schedule_feed w st url = submit_entries st (feed_window w url)"
  unfolding schedule_feed_def feed_window_def
  by (cases st) (simp split: sum.splits)

lemma schedule_feeds_new_claims:
  "schedule_feeds w (seen, futures) urls =
     (seen \<union> claimed_links (new_claims seen (concat (map (feed_window w) urls))),
      futures @ new_claims seen (concat (map (feed_window w) urls)))"
proof (induction urls arbitrary: seen futures)
  case Nil
  show ?case by (simp add: schedule_feeds_def claimed_links_Nil)
next
  case (Cons url urls)
  have "schedule_feeds w (seen, futures) (url # urls) =
          schedule_feeds w (schedule_feed w (seen, futures) url) urls"
    by (simp add: schedule_feeds_def)
  then show ?case
    by (simp add: schedule_feed_window submit_entries_new_claims Cons.IH new_claims_append
        claimed_links_append Un_assoc)
qed

lemma scheduled_new_claims: "scheduled w = new_claims {} (candidates w)"
  unfolding scheduled_def candidates_def by (simp add: schedule_feeds_new_claims)

lemma new_claims_member:
  "e \<in> set (new_claims seen es) \<Longrightarrow>
     e \<in> set es \<and> (\<exists>l. entry_link e = Some l \<and> l \<noteq> [] \<and> l \<notin> seen)"
proof (induction es arbitrary: seen)
  case Nil
  then show ?case by simp
next
  case (Cons x es)
  show ?case
  proof (cases "entry_link x")
    case None
    with Cons.prems Cons.IH [of seen] show ?thesis by auto
  next
    case (Some l)
    with Cons.prems Cons.IH [of seen] Cons.IH [of "insert l seen"] show ?thesis
      by (auto split: if_splits)
  qed
qed

lemma new_claims_distinct: "distinct (map entry_link (new_claims seen es))"
proof (induction es arbitrary: seen)
  case Nil
  show ?case by simp
next
  case (Cons x es)
  show ?case
  proof (cases "entry_link x")
    case None
    with Cons.IH show ?thesis by simp
  next
    case (Some l)
    have "Some l \<notin> entry_link ` set (new_claims (insert l seen) es)"
      using new_claims_member [of _ "insert l seen" es] by force
    with Some Cons.IH show ?thesis by simp
  qed
qed

lemma new_claims_first:
  "e \<in> set (new_claims seen es) \<Longrightarrow> find (\<lambda>x. entry_link x = entry_link e) es = Some e"
proof (induction es arbitrary: seen)
  case Nil
  then show ?case by simp
next
  case (Cons x es)
  show ?case
  proof (cases "entry_link x")
    case None
    with Cons.prems have "e \<in> set (new_claims seen es)" by simp
    with Cons.IH new_claims_member [of e seen es] None show ?thesis by auto
  next
    case (Some l)
    show ?thesis
    proof (cases "l = [] \<or> l \<in> seen")
      case True
      with Cons.prems Some have in_rest: "e \<in> set (new_claims seen es)" by simp
      with new_claims_member [of e seen es] True Some have "entry_link x \<noteq> entry_link e"
        by auto
      with Cons.IH [OF in_rest] show ?thesis by simp
    next
      case False
      with Cons.prems Some have "e = x \<or> e \<in> set (new_claims (insert l seen) es)" by simp
      then show ?thesis
      proof
        assume "e = x"
        then show ?thesis by simp
      next
        assume in_rest: "e \<in> set (new_claims (insert l seen) es)"
        with new_claims_member [of e "insert l seen" es] Some
        have "entry_link x \<noteq> entry_link e" by auto
        with Cons.IH [OF in_rest] show ?thesis by simp
      qed
    qed
  qed
qed

lemma new_claims_covers:
  "c \<in> set es \<Longrightarrow> entry_link c = Some l \<Longrightarrow> l \<noteq> [] \<Longrightarrow> l \<notin> seen \<Longrightarrow>
     \<exists>e \<in> set (new_claims seen es). entry_link e = Some l"
proof (induction es arbitrary: seen)
  case Nil
  then show ?case by simp
next
  case (Cons x es)
  show ?case
  proof (cases "entry_link x = Some l")
    case True
    with Cons.prems show ?thesis by simp
  next
    case False
    with Cons.prems have c: "c \<in> set es" by auto
    show ?thesis
    proof (cases "entry_link x")
      case None
      with Cons.IH [OF c Cons.prems(2,3,4)] show ?thesis by simp
    next
      case (Some l')
      with False have "l \<notin> insert l' seen" using Cons.prems(4) by auto
      from Cons.IH [OF c Cons.prems(2,3) this] Cons.IH [OF c Cons.prems(2,3,4)] Some
      show ?thesis by auto
    qed
  qed
qed

lemma new_claims_sorted_wrt:
  "sorted_wrt P es \<Longrightarrow> sorted_wrt P (new_claims seen es)"
proof (induction es arbitrary: seen)
  case Nil
  show ?case by simp
next
  case (Cons x es)
  then have rest: "\<And>s. sorted_wrt P (new_claims s es)" and "\<forall>y \<in> set es. P x y"
    by auto
  with new_claims_member [of _ _ es] show ?case
    by (auto split: option.splits)
qed

lemma sort_descending_sorted:
  "sorted_wrt (\<lambda>a b. k b \<le> k a) (sort_descending k xs)"
proof -
  have "sorted (map k (sort_key k (rev xs)))" by (rule sorted_sort_key)
  then have "sorted_wrt (\<lambda>a b. k a \<le> k b) (sort_key k (rev xs))"
    by (simp add: sorted_wrt_map)
  then show ?thesis
    unfolding sort_descending_def by (simp add: sorted_wrt_rev)
qed

lemma feed_window_sorted:
  "sorted_wrt (\<lambda>a b. entry_sort_key b \<le> entry_sort_key a) (feed_window w url)"
  unfolding feed_window_def sorted_entries_def
  by (simp add: sort_descending_sorted split: sum.splits)

lemma feed_window_subset:
  "feedparser_parse w url = Inr feed_entries \<Longrightarrow>
     set (feed_window w url) \<subseteq> set (take max_articles_per_feed feed_entries)"
  unfolding feed_window_def sorted_entries_def
  by (simp add: sort_descending_set split: sum.splits)

lemma feed_window_parse_failed:
  "feedparser_parse w url = Inl ex \<Longrightarrow> feed_window w url = []"
  unfolding feed_window_def by simp

lemma candidates_member:
  assumes "e \<in> set (candidates w)"
  shows "\<exists>url \<in> set feed_urls. \<exists>feed_entries. feedparser_parse w url = Inr feed_entries
           \<and> e \<in> set (take max_articles_per_feed feed_entries)"
proof -
  from assms obtain url where url: "url \<in> set feed_urls" "e \<in> set (feed_window w url)"
    unfolding candidates_def by auto
  show ?thesis
  proof (cases "feedparser_parse w url")
    case (Inl ex)
    with url(2) show ?thesis by (simp add: feed_window_parse_failed)
  next
    case (Inr feed_entries)
    with url feed_window_subset [OF Inr] show ?thesis by blast
  qed
qed

text \<open>
  Claim C4, as amended. The cap comes before the sort: the entries a feed submits are among
  the first fifteen entries of the feed as the feed lists them, taken in the order of their
  time, newest first. Every entry submitted by a run is in the first-fifteen window of a
  configured feed that parsed.
\<close>

theorem submitted_within_first_window:
  "(feedparser_parse w url = Inr feed_entries \<longrightarrow>
      (\<exists>new. schedule_feed w (seen, futures) url = (seen \<union> claimed_links new, futures @ new)
         \<and> set new \<subseteq> set (take max_articles_per_feed feed_entries)
         \<and> sorted_wrt (\<lambda>a b. entry_sort_key b \<le> entry_sort_key a) new))
   \<and> (e \<in> set (scheduled w) \<longrightarrow>
        (\<exists>url \<in> set feed_urls. \<exists>feed_entries. feedparser_parse w url = Inr feed_entries
           \<and> e \<in> set (take max_articles_per_feed feed_entries)))"
proof (intro conjI impI)
  assume parse: "feedparser_parse w url = Inr feed_entries"
  let ?new = "new_claims seen (feed_window w url)"
  have "schedule_feed w (seen, futures) url = (seen \<union> claimed_links ?new, futures @ ?new)"
    by (simp add: schedule_feed_window submit_entries_new_claims)
  moreover have "set ?new \<subseteq> set (take max_articles_per_feed feed_entries)"
    using new_claims_member [of _ seen "feed_window w url"] feed_window_subset [OF parse]
    by blast
  moreover have "sorted_wrt (\<lambda>a b. entry_sort_key b \<le> entry_sort_key a) ?new"
    by (intro new_claims_sorted_wrt feed_window_sorted)
  ultimately show "\<exists>new. schedule_feed w (seen, futures) url
        = (seen \<union> claimed_links new, futures @ new)
      \<and> set new \<subseteq> set (take max_articles_per_feed feed_entries)
      \<and> sorted_wrt (\<lambda>a b. entry_sort_key b \<le> entry_sort_key a) new"
    by blast
next
  assume "e \<in> set (scheduled w)"
  then have "e \<in> set (candidates w)"
    using new_claims_member [of e "{}" "candidates w"] by (simp add: scheduled_new_claims)
  then show "\<exists>url \<in> set feed_urls. \<exists>feed_entries. feedparser_parse w url = Inr feed_entries
      \<and> e \<in> set (take max_articles_per_feed feed_entries)"
    by (rule candidates_member)
qed

theorem submitted_within_first_window_witness:
  "feedparser_parse long_world ''https://rss.nytimes.com/services/xml/rss/nyt/Science.xml''
     = Inr long_feed
   \<and> numbered_entry 0 \<in> set (scheduled long_world)
   \<and> (\<exists>new. schedule_feed long_world ({}, [])
          ''https://rss.nytimes.com/services/xml/rss/nyt/Science.xml''
          = ({} \<union> claimed_links new, [] @ new)
        \<and> set new \<subseteq> set (take max_articles_per_feed long_feed)
        \<and> sorted_wrt (\<lambda>a b. entry_sort_key b \<le> entry_sort_key a) new)
   \<and> (\<exists>url \<in> set feed_urls. \<exists>feed_entries. feedparser_parse long_world url = Inr feed_entries
        \<and> numbered_entry 0 \<in> set (take max_articles_per_feed feed_entries))"
proof -
  have parse: "feedparser_parse long_world
      ''https://rss.nytimes.com/services/xml/rss/nyt/Science.xml'' = Inr long_feed"
    by (simp add: long_world_def world_of_def)
  have submitted: "numbered_entry 0 \<in> set (scheduled long_world)"
    by code_simp
  from submitted_within_first_window [of long_world
      "''https://rss.nytimes.com/services/xml/rss/nyt/Science.xml''" long_feed "{}" "[]"
      "numbered_entry 0"] parse submitted
  show ?thesis by blast
qed

text \<open>
  Claim C4 as stated fails: of sixteen entries listed oldest first, the oldest is submitted
  although it is not among the fifteen most recent, and the newest is among the fifteen
  most recent and is not submitted.
\<close>

theorem most_recent_window_counterexample:
  "feedparser_parse long_world ''https://rss.nytimes.com/services/xml/rss/nyt/Science.xml''
     = Inr long_feed
   \<and> numbered_entry 0 \<in> set (scheduled long_world)
   \<and> numbered_entry 0 \<notin> set (most_recent_window long_feed)
   \<and> numbered_entry 15 \<in> set (most_recent_window long_feed)
   \<and> numbered_entry 15 \<notin> set (scheduled long_world)"
  by code_simp

text \<open>
  Claim C10. When the sort of a feed's window raises, the handler that also guards the parse
  skips the whole feed: nothing of it is submitted, no link of it is marked as seen, and the
  loop goes on with the remaining feeds. The sort does raise when the window has two or
  more entries and one of them has neither timestamp.
\<close>

theorem failed_sort_skips_feed:
  "(feedparser_parse w url = Inr feed_entries
      \<and> sorted_entries (take max_articles_per_feed feed_entries) = Inl ex \<longrightarrow>
      schedule_feed w st url = st
      \<and> schedule_feeds w st (url # rest) = schedule_feeds w st rest)
   \<and> (2 \<le> length window \<and> x \<in> set window
        \<and> published_parsed x = None \<and> updated_parsed x = None \<longrightarrow>
        sorted_entries window = Inl TypeError)"
proof (intro conjI impI)
  assume a: "feedparser_parse w url = Inr feed_entries
      \<and> sorted_entries (take max_articles_per_feed feed_entries) = Inl ex"
  then show skip: "schedule_feed w st url = st"
    unfolding schedule_feed_def by simp
  then show "schedule_feeds w st (url # rest) = schedule_feeds w st rest"
    unfolding schedule_feeds_def by simp
next
  assume b: "2 \<le> length window \<and> x \<in> set window
      \<and> published_parsed x = None \<and> updated_parsed x = None"
  then have "entry_sort_key x = None"
    by (simp add: entry_sort_key_def get_or_none_def)
  with b have "list_ex (\<lambda>x. entry_sort_key x = None) window"
    unfolding list_ex_iff by blast
  with b show "sorted_entries window = Inl TypeError"
    unfolding sorted_entries_def by simp
qed

theorem failed_sort_skips_feed_witness:
  "sorted_entries (take max_articles_per_feed mixed_feed) = Inl TypeError
   \<and> schedule_feed mixed_world ({}, [])
       ''https://rss.nytimes.com/services/xml/rss/nyt/Science.xml'' = ({}, [])
   \<and> schedule_feeds mixed_world ({}, []) feed_urls
       = schedule_feeds mixed_world ({}, [])
           [''https://feeds.bbci.co.uk/news/science_and_environment/rss.xml'']
   \<and> scheduled mixed_world = [plain_entry ''Ocean'' ''c'' (Some (Some new_year_2020))]"
proof -
  have parse: "feedparser_parse mixed_world
      ''https://rss.nytimes.com/services/xml/rss/nyt/Science.xml'' = Inr mixed_feed"
    by (simp add: mixed_world_def world_of_def)
  have window: "take max_articles_per_feed mixed_feed = mixed_feed"
    by (simp add: mixed_feed_def max_articles_per_feed_def)
  have undated: "2 \<le> length mixed_feed" "plain_entry ''Ocean'' ''b'' None \<in> set mixed_feed"
    "published_parsed (plain_entry ''Ocean'' ''b'' None) = None"
    "updated_parsed (plain_entry ''Ocean'' ''b'' None) = None"
    by (simp_all add: mixed_feed_def plain_entry_def)
  have urls: "feed_urls = ''https://rss.nytimes.com/services/xml/rss/nyt/Science.xml''
      # [''https://feeds.bbci.co.uk/news/science_and_environment/rss.xml'']"
    by (simp add: feed_urls_def)
  have rest: "snd (schedule_feeds mixed_world ({}, [])
      [''https://feeds.bbci.co.uk/news/science_and_environment/rss.xml''])
      = [plain_entry ''Ocean'' ''c'' (Some (Some new_year_2020))]"
    by code_simp
  from failed_sort_skips_feed [of mixed_world
      "''https://rss.nytimes.com/services/xml/rss/nyt/Science.xml''" mixed_feed TypeError
      "({}, [])" "[''https://feeds.bbci.co.uk/news/science_and_environment/rss.xml'']"
      mixed_feed "plain_entry ''Ocean'' ''b'' None"]
    parse window undated urls rest
  show ?thesis by (simp add: scheduled_def)
qed

section \<open>Properties of the collected results\<close>

lemma collect_matched_mset:
  "mset rs = mset rs' \<Longrightarrow> mset (collect_matched rs) = mset (collect_matched rs')"
proof -
  assume eq: "mset rs = mset rs'"
  have "mset (collect_matched xs) = image_mset the (filter_mset (\<lambda>r. r \<noteq> None) (mset xs))"
    for xs :: "scored_article option list"
    unfolding collect_matched_def List.map_filter_def by (simp add: comp_def)
  with eq show ?thesis by simp
qed

lemma completed_matched_mset:
  assumes "valid_completion (length es) completion"
  shows "mset (collect_matched (as_completed (map f es) completion))
         = mset (collect_matched (map f es))"
  using assms by (intro collect_matched_mset valid_completion_mset) simp

lemma collect_matched_simps:
  "collect_matched [] = []"
  "collect_matched (None # rs) = collect_matched rs"
  "collect_matched (Some a # rs) = a # collect_matched rs"
  unfolding collect_matched_def List.map_filter_def by simp_all

lemma matched_links_distinct:
  "distinct (map entry_link es) \<Longrightarrow>
     distinct (map link (collect_matched (map (\<lambda>e. fetch_article_content w e keywords) es)))"
proof (induction es)
  case Nil
  show ?case by (simp add: collect_matched_simps)
next
  case (Cons e es)
  let ?rest = "collect_matched (map (\<lambda>e. fetch_article_content w e keywords) es)"
  from Cons have rest: "distinct (map link ?rest)" by simp
  show ?case
  proof (cases "fetch_article_content w e keywords")
    case None
    with rest show ?thesis by (simp add: collect_matched_simps)
  next
    case (Some a)
    have "link a \<notin> link ` set ?rest"
    proof
      assume "link a \<in> link ` set ?rest"
      then obtain a' where a': "a' \<in> set ?rest" "link a' = link a" by auto
      then obtain e' where e': "e' \<in> set es" "fetch_article_content w e' keywords = Some a'"
        by (auto simp: collect_matched_set)
      from fetch_article_content_Some [OF Some] fetch_article_content_Some [OF e'(2)] a'(2)
      have "entry_link e' = entry_link e" by auto
      with e'(1) have "entry_link e \<in> entry_link ` set es" by (metis imageI)
      with Cons.prems show False by simp
    qed
    with rest Some show ?thesis by (simp add: collect_matched_simps)
  qed
qed

lemma result_links_Scored: "result_links (map Scored xs) = map link xs"
  unfolding result_links_def List.map_filter_def by (induction xs) simp_all

lemma result_links_Message: "result_links [Message m] = []"
  unfolding result_links_def List.map_filter_def by simp

lemma rank_results_cases:
  assumes "rank_results query rs = Inr out"
  shows "(collect_matched rs = [] \<and> out = [Message (no_articles_message query)])
       \<or> (collect_matched rs \<noteq> [] \<and> sort_matched (collect_matched rs)
             = Inr (sort_descending ranking_key (collect_matched rs))
           \<and> out = map Scored (take max_results (sort_descending ranking_key (collect_matched rs))))"
  using assms unfolding rank_results_def
  by (auto simp: Let_def split: if_splits sum.splits dest: sort_matched_Inr)

text \<open>
  Claim C2. No two scored articles of an output share a link. The entries submitted have
  pairwise different links; the entry submitted for a link is the first one with that link
  among the entries that reach the inner loop, taken feed by feed; and every non-empty link
  among them is claimed by a submitted entry.
\<close>

theorem links_deduplicated:
  "(valid_completion (length (scheduled w)) completion
      \<and> fetch_and_filter_articles w completion query = Inr out \<longrightarrow> distinct (result_links out))
   \<and> distinct (map entry_link (scheduled w))
   \<and> (e \<in> set (scheduled w) \<longrightarrow>
        find (\<lambda>x. entry_link x = entry_link e) (candidates w) = Some e)
   \<and> (c \<in> set (candidates w) \<and> entry_link c = Some l \<and> l \<noteq> [] \<longrightarrow>
        (\<exists>e \<in> set (scheduled w). entry_link e = Some l))"
proof (intro conjI impI)
  show sched: "distinct (map entry_link (scheduled w))"
    by (simp add: scheduled_new_claims new_claims_distinct)
  {
    assume run: "valid_completion (length (scheduled w)) completion
      \<and> fetch_and_filter_articles w completion query = Inr out"
    let ?f = "\<lambda>e. fetch_article_content w e (keywords_of query)"
    let ?m = "collect_matched (as_completed (map ?f (scheduled w)) completion)"
    from run have ranked: "rank_results query (as_completed (map ?f (scheduled w)) completion)
        = Inr out"
      unfolding fetch_and_filter_articles_def by (simp add: Let_def)
    have "mset ?m = mset (collect_matched (map ?f (scheduled w)))"
      using run by (intro completed_matched_mset) simp
    then have "mset (map link ?m) = mset (map link (collect_matched (map ?f (scheduled w))))"
      by simp
    with matched_links_distinct [OF sched, of w "keywords_of query"]
    have "distinct (map link ?m)" by (metis mset_eq_imp_distinct_iff)
    moreover have "mset (map link (sort_descending ranking_key ?m)) = mset (map link ?m)"
      by (simp add: sort_descending_mset)
    ultimately have "distinct (map link (sort_descending ranking_key ?m))"
      by (metis mset_eq_imp_distinct_iff)
    then have "distinct (map link (take max_results (sort_descending ranking_key ?m)))"
      by (simp add: take_map [symmetric])
    with rank_results_cases [OF ranked] show "distinct (result_links out)"
      by (auto simp: result_links_Scored result_links_Message)
  }
  {
    assume "e \<in> set (scheduled w)"
    then show "find (\<lambda>x. entry_link x = entry_link e) (candidates w) = Some e"
      by (simp add: scheduled_new_claims new_claims_first)
  }
  {
    assume "c \<in> set (candidates w) \<and> entry_link c = Some l \<and> l \<noteq> []"
    then show "\<exists>e \<in> set (scheduled w). entry_link e = Some l"
      using new_claims_covers [of c "candidates w" l "{}"] by (simp add: scheduled_new_claims)
  }
qed

theorem links_deduplicated_witness:
  "fetch_and_filter_articles shared_link_world [1, 0] ''ocean''
     = Inr [Scored \<lparr>title = ''Ocean ocean ocean'', content = [], link = ''b'',
                   publish_date = Some new_year_2020, relevance_score = 30,
                   details = \<lparr>title_matches = 3, content_matches = 0, recency_bonus = 0\<rparr>\<rparr>,
            Scored \<lparr>title = ''Ocean'', content = [], link = ''a'',
                   publish_date = Some new_year_2020, relevance_score = 10,
                   details = \<lparr>title_matches = 1, content_matches = 0, recency_bonus = 0\<rparr>\<rparr>]
   \<and> distinct (result_links (
        [Scored \<lparr>title = ''Ocean ocean ocean'', content = [], link = ''b'',
                   publish_date = Some new_year_2020, relevance_score = 30,
                   details = \<lparr>title_matches = 3, content_matches = 0, recency_bonus = 0\<rparr>\<rparr>,
            Scored \<lparr>title = ''Ocean'', content = [], link = ''a'',
                   publish_date = Some new_year_2020, relevance_score = 10,
                   details = \<lparr>title_matches = 1, content_matches = 0, recency_bonus = 0\<rparr>\<rparr>]))
   \<and> scheduled shared_link_world
       = [plain_entry ''Ocean'' ''a'' (Some (Some new_year_2020)),
          plain_entry ''Ocean ocean ocean'' ''b'' (Some (Some new_year_2020))]
   \<and> find (\<lambda>x. entry_link x = Some ''a'') (candidates shared_link_world)
       = Some (plain_entry ''Ocean'' ''a'' (Some (Some new_year_2020)))
   \<and> (\<exists>e \<in> set (scheduled shared_link_world). entry_link e = Some ''a'')"
proof -
  let ?e = "plain_entry ''Ocean'' ''a'' (Some (Some new_year_2020))"
  let ?c = "plain_entry ''Ocean ocean'' ''a'' (Some (Some new_year_2020))"
  have valid: "valid_completion (length (scheduled shared_link_world)) [1, 0]"
    by code_simp
  have run: "fetch_and_filter_articles shared_link_world [1, 0] ''ocean''
     = Inr [Scored \<lparr>title = ''Ocean ocean ocean'', content = [], link = ''b'',
                   publish_date = Some new_year_2020, relevance_score = 30,
                   details = \<lparr>title_matches = 3, content_matches = 0, recency_bonus = 0\<rparr>\<rparr>,
            Scored \<lparr>title = ''Ocean'', content = [], link = ''a'',
                   publish_date = Some new_year_2020, relevance_score = 10,
                   details = \<lparr>title_matches = 1, content_matches = 0, recency_bonus = 0\<rparr>\<rparr>]"
    by code_simp
  have sched: "scheduled shared_link_world
       = [?e, plain_entry ''Ocean ocean ocean'' ''b'' (Some (Some new_year_2020))]"
    by code_simp
  have e: "?e \<in> set (scheduled shared_link_world)" "entry_link ?e = Some ''a''"
    by (simp_all add: sched) (simp add: plain_entry_def)
  have c: "?c \<in> set (candidates shared_link_world)" "entry_link ?c = Some ''a''" "''a'' \<noteq> []"
    by code_simp+
  from links_deduplicated [of shared_link_world "[1, 0]" "''ocean''" _ ?e ?c "''a''"]
    valid run sched e c
  show ?thesis by simp
qed

lemma as_completed_set:
  "valid_completion (length xs) completion \<Longrightarrow> set (as_completed xs completion) = set xs"
  by (metis valid_completion_mset set_mset_mset)

lemma collect_matched_empty: "collect_matched rs = [] \<longleftrightarrow> (\<forall>r \<in> set rs. r = None)"
proof (induction rs)
  case Nil
  show ?case by (simp add: collect_matched_simps)
next
  case (Cons r rs)
  then show ?case by (cases r) (simp_all add: collect_matched_simps)
qed

lemma parse_failed_nothing_scheduled:
  assumes "\<forall>url \<in> set feed_urls. \<exists>ex. feedparser_parse w url = Inl ex"
  shows "scheduled w = []"
proof -
  from assms have "\<forall>url \<in> set feed_urls. feed_window w url = []"
    using feed_window_parse_failed by blast
  then have "candidates w = []"
    unfolding candidates_def by simp
  then show ?thesis by (simp add: scheduled_new_claims)
qed

text \<open>
  Claim C6. When no submitted entry is scored above 0, the run raises no exception and returns
  the list of exactly one record, the message \<^verbatim>\<open>No articles found containing the query
  '<query>'.\<close> with the query as the caller gave it. This is the case in particular when
  every configured feed fails to parse.
\<close>

theorem no_matches_message:
  "(valid_completion (length (scheduled w)) completion
      \<and> (\<forall>e \<in> set (scheduled w). fetch_article_content w e (keywords_of query) = None) \<longrightarrow>
      fetch_and_filter_articles w completion query
        = Inr [Message (''No articles found containing the query '' @ [CHR 0x27] @ query
                 @ [CHR 0x27] @ ''.'')])
   \<and> (valid_completion (length (scheduled w)) completion
        \<and> (\<forall>url \<in> set feed_urls. \<exists>ex. feedparser_parse w url = Inl ex) \<longrightarrow>
        fetch_and_filter_articles w completion query
          = Inr [Message (''No articles found containing the query '' @ [CHR 0x27] @ query
                   @ [CHR 0x27] @ ''.'')])"
proof -
  let ?f = "\<lambda>e. fetch_article_content w e (keywords_of query)"
  have none: "fetch_and_filter_articles w completion query
      = Inr [Message (''No articles found containing the query '' @ [CHR 0x27] @ query
               @ [CHR 0x27] @ ''.'')]"
    if valid: "valid_completion (length (scheduled w)) completion"
      and unmatched: "\<forall>e \<in> set (scheduled w). ?f e = None"
  proof -
    have "set (as_completed (map ?f (scheduled w)) completion) = set (map ?f (scheduled w))"
      using valid by (intro as_completed_set) simp
    with unmatched
    have "collect_matched (as_completed (map ?f (scheduled w)) completion) = []"
      by (auto simp: collect_matched_empty)
    then show ?thesis
      unfolding fetch_and_filter_articles_def rank_results_def no_articles_message_def
      by (simp add: Let_def)
  qed
  have "\<forall>e \<in> set (scheduled w). ?f e = None"
    if "\<forall>url \<in> set feed_urls. \<exists>ex. feedparser_parse w url = Inl ex"
    using parse_failed_nothing_scheduled [OF that] by simp
  with none show ?thesis by blast
qed

theorem no_matches_message_witness:
  "fetch_and_filter_articles dead_world [] ''Ocean Warming''
     = Inr [Message (''No articles found containing the query '' @ [CHR 0x27]
              @ ''Ocean Warming'' @ [CHR 0x27] @ ''.'')]
   \<and> scheduled dead_world = []"
proof -
  have failed: "\<forall>url \<in> set feed_urls. \<exists>ex. feedparser_parse dead_world url = Inl ex"
    by (simp add: dead_world_def world_of_def feed_urls_def)
  then have none_scheduled: "scheduled dead_world = []"
    by (rule parse_failed_nothing_scheduled)
  then have valid: "valid_completion (length (scheduled dead_world)) []"
    by (simp add: valid_completion_def)
  have unmatched: "\<forall>e \<in> set (scheduled dead_world).
      fetch_article_content dead_world e (keywords_of ''Ocean Warming'') = None"
    by (simp add: none_scheduled)
  from no_matches_message [of dead_world "[]" "''Ocean Warming''"] valid unmatched failed none_scheduled
  show ?thesis by simp
qed

text \<open>
  Claim C3, where the code departs from it. Two feeds with one entry each, both entries a
  year old or more and both with the keyword once in the title, so both score 10; the entry
  of the first feed has no timestamp. The final sort compares \<^verbatim>\<open>(10, None, False)\<close> with
  \<^verbatim>\<open>(10, struct_time, False)\<close> and the run ends with \<^verbatim>\<open>TypeError\<close>, for either order of
  completion.
\<close>

theorem final_sort_raises_on_undated_tie:
  "scheduled undated_world
     = [plain_entry ''Ocean'' ''a'' None, plain_entry ''Ocean'' ''b'' (Some (Some new_year_2020))]
   \<and> fetch_article_content undated_world (plain_entry ''Ocean'' ''a'' None) (keywords_of ''ocean'')
     = Some \<lparr>title = ''Ocean'', content = [], link = ''a'', publish_date = None,
             relevance_score = 10,
             details = \<lparr>title_matches = 1, content_matches = 0, recency_bonus = 0\<rparr>\<rparr>
   \<and> fetch_article_content undated_world
       (plain_entry ''Ocean'' ''b'' (Some (Some new_year_2020))) (keywords_of ''ocean'')
     = Some \<lparr>title = ''Ocean'', content = [], link = ''b'', publish_date = Some new_year_2020,
             relevance_score = 10,
             details = \<lparr>title_matches = 1, content_matches = 0, recency_bonus = 0\<rparr>\<rparr>
   \<and> fetch_and_filter_articles undated_world [0, 1] ''ocean'' = Inl TypeError
   \<and> fetch_and_filter_articles undated_world [1, 0] ''ocean'' = Inl TypeError"
  by code_simp

text \<open>Where the final sort does not raise, the output is the sorted list of all matched
  articles, cut to ten.\<close>

lemma ranked_output_sorted:
  assumes "rank_results query rs = Inr out" "collect_matched rs \<noteq> []"
  shows "out = map Scored (take max_results (sort_descending ranking_key (collect_matched rs)))
     \<and> sorted_wrt (\<lambda>a b. ranking_key b \<le> ranking_key a)
         (sort_descending ranking_key (collect_matched rs))
     \<and> mset (sort_descending ranking_key (collect_matched rs)) = mset (collect_matched rs)
     \<and> length out \<le> 10"
  using rank_results_cases [OF assms(1)] assms(2)
  by (simp add: sort_descending_sorted sort_descending_mset max_results_def)

section \<open>The empty query\<close>

lemma scores_without_keywords:
  assumes "fetch_article_content w e [] = Some a"
  shows "title_matches (details a) = 0 \<and> content_matches (details a) = 0
     \<and> relevance_score a = recency_bonus (details a)
     \<and> recency_bonus (details a) \<in> {3, 5} \<and> publish_date a \<noteq> None"
proof -
  from fetch_article_content_Some [OF assms] obtain l where
    f: "relevance_score a = total_score_of w e l []" "0 < relevance_score a"
      "title_matches (details a) = title_score_of (lower (title_of e)) [] div 10"
      "content_matches (details a) = content_score_of (lower (final_content_of w e l)) []"
      "recency_bonus (details a) = recency_score_of w l (publish_date_of e)"
      "publish_date a = publish_date_of e"
    by auto
  have zero: "title_score_of t [] = 0" "content_score_of t [] = 0" for t
    by (simp_all add: title_score_of_def content_score_of_def)
  from f zero have score: "relevance_score a = recency_score_of w l (publish_date_of e)"
    by (simp add: total_score_of_def)
  with f(2) recency_score_values [of w l "publish_date_of e"]
  have "recency_score_of w l (publish_date_of e) \<in> {3, 5}" by auto
  moreover from score f(2) have "publish_date_of e \<noteq> None"
    by (cases "publish_date_of e") (simp_all add: recency_score_of_def)
  ultimately show ?thesis using f zero score by simp
qed

lemma sort_matched_all_dated:
  assumes "\<forall>a \<in> set xs. publish_date a \<noteq> None"
  shows "sort_matched xs = Inr (sort_descending ranking_key xs)"
proof -
  from assms have "\<not> list_ex (\<lambda>a. list_ex (\<lambda>b. incomparable a b) xs) xs"
    unfolding list_ex_iff incomparable_def by auto
  then show ?thesis unfolding sort_matched_def by simp
qed

lemma space_lower_char: "is_space c \<Longrightarrow> lower_char c = c"
  unfolding is_space_def lower_char_def Let_def by auto

lemma split_from_spaces: "\<forall>c \<in> set s. is_space c \<Longrightarrow> split_from [] s = []"
  by (induction s) simp_all

lemma keywords_of_white_space:
  assumes "\<forall>c \<in> set query. is_space c"
  shows "keywords_of query = []"
proof -
  from assms have "lower query = query"
    unfolding lower_def by (simp add: map_idI space_lower_char)
  with assms show ?thesis
    unfolding keywords_of_def split_def by (simp add: split_from_spaces)
qed

lemma unscored_without_keywords:
  assumes "entry_link e = Some lnk" "lnk \<noteq> []"
  shows "(fetch_article_content w e [] = None) = (recency_score_of w lnk (publish_date_of e) = 0)"
proof -
  have "total_score_of w e lnk [] = recency_score_of w lnk (publish_date_of e)"
    by (simp add: total_score_of_def title_score_of_def content_score_of_def)
  with fetch_article_content_None [OF assms, of w "[]"]
    recency_score_values [of w lnk "publish_date_of e"]
  show ?thesis by auto
qed

lemma scheduled_has_link:
  "e \<in> set (scheduled w) \<Longrightarrow> \<exists>lnk. entry_link e = Some lnk \<and> lnk \<noteq> []"
  using new_claims_member [of e "{}" "candidates w"] by (auto simp: scheduled_new_claims)

lemma scheduled_scored_without_keywords:
  assumes "e \<in> set (scheduled w)"
  shows "(fetch_article_content w e [] \<noteq> None) = (0 < entry_recency w e)"
proof -
  from scheduled_has_link [OF assms] obtain lnk where l: "entry_link e = Some lnk" "lnk \<noteq> []"
    by blast
  from unscored_without_keywords [OF l, of w] recency_score_values [of w lnk "publish_date_of e"] l
  show ?thesis by (auto simp: entry_recency_def)
qed

lemma collect_matched_length:
  "length (collect_matched (map f es)) = length (filter (\<lambda>e. f e \<noteq> None) es)"
proof (induction es)
  case Nil
  show ?case by (simp add: collect_matched_simps)
next
  case (Cons e es)
  then show ?case by (cases "f e") (simp_all add: collect_matched_simps)
qed

lemma run_by_matched:
  "fetch_and_filter_articles w completion query =
     (if matched_as_completed w completion query = []
      then Inr [Message (no_articles_message query)]
      else (case sort_matched (matched_as_completed w completion query) of
              Inl ex \<Rightarrow> Inl ex
            | Inr sorted_articles \<Rightarrow> Inr (map Scored (take max_results sorted_articles))))"
  unfolding fetch_and_filter_articles_def rank_results_def matched_as_completed_def
  by (simp add: Let_def)

lemma matched_as_completed_mset:
  assumes "valid_completion (length (scheduled w)) completion"
  shows "mset (matched_as_completed w completion query) = mset (matched_in_order w query)"
  unfolding matched_as_completed_def matched_in_order_def
  using assms by (rule completed_matched_mset)

text \<open>
  Claim C8, as amended. A query with no keyword (the empty query, or white space only) is
  not an error: the run returns a list. The scorer returns an article for an entry exactly
  when the recency bonus of the entry is positive. When no submitted entry has a positive
  bonus the run returns the one informational record; otherwise it returns the articles of
  the entries with a positive bonus, sorted and cut to the first ten. Every article of the
  output has no title match, no content match, the score 3 or 5, and a publish date.
\<close>

theorem empty_query_returns_recent:
  "(\<forall>c \<in> set query. is_space c) \<and> valid_completion (length (scheduled w)) completion \<longrightarrow>
     keywords_of query = []
     \<and> (entry_link x = Some lnk \<and> lnk \<noteq> [] \<longrightarrow>
          (fetch_article_content w x (keywords_of query) = None)
            = (recency_score_of w lnk (publish_date_of x) = 0))
     \<and> (\<forall>e \<in> set (scheduled w).
          (fetch_article_content w e (keywords_of query) \<noteq> None) = (0 < entry_recency w e))
     \<and> (\<exists>out. fetch_and_filter_articles w completion query = Inr out
          \<and> ((\<forall>e \<in> set (scheduled w). entry_recency w e = 0) \<longrightarrow>
                out = [Message (''No articles found containing the query '' @ [CHR 0x27] @ query
                         @ [CHR 0x27] @ ''.'')])
          \<and> ((\<exists>e \<in> set (scheduled w). 0 < entry_recency w e) \<longrightarrow>
                (\<exists>s. out = map Scored (take max_results s)
                   \<and> mset s = mset (matched_in_order w query)
                   \<and> sorted_wrt (\<lambda>a b. ranking_key b \<le> ranking_key a) s)
                \<and> length out
                    = min max_results (length (filter (\<lambda>e. 0 < entry_recency w e) (scheduled w))))
          \<and> (\<forall>a. Scored a \<in> set out \<longrightarrow>
                title_matches (details a) = 0 \<and> content_matches (details a) = 0
                \<and> relevance_score a = recency_bonus (details a)
                \<and> recency_bonus (details a) \<in> {3, 5} \<and> publish_date a \<noteq> None))"
proof
  assume a: "(\<forall>c \<in> set query. is_space c) \<and> valid_completion (length (scheduled w)) completion"
  then have k: "keywords_of query = []" by (simp add: keywords_of_white_space)
  let ?m = "matched_as_completed w completion query"
  let ?s = "sort_descending ranking_key ?m"
  let ?recent = "filter (\<lambda>e. 0 < entry_recency w e) (scheduled w)"
  have scorer: "entry_link x = Some lnk \<and> lnk \<noteq> [] \<longrightarrow>
      (fetch_article_content w x (keywords_of query) = None)
        = (recency_score_of w lnk (publish_date_of x) = 0)"
    using unscored_without_keywords [of x lnk w] k by simp
  have sched: "\<forall>e \<in> set (scheduled w).
      (fetch_article_content w e (keywords_of query) \<noteq> None) = (0 < entry_recency w e)"
    using scheduled_scored_without_keywords [of _ w] k by simp
  have m_mset: "mset ?m = mset (matched_in_order w query)"
    using a by (simp add: matched_as_completed_mset)
  then have m_set: "set ?m = set (matched_in_order w query)"
    by (metis set_mset_mset)
  have member: "\<exists>e \<in> set (scheduled w). fetch_article_content w e [] = Some y"
    if "y \<in> set ?m" for y
    using that m_set k unfolding matched_in_order_def by (auto simp: collect_matched_set)
  have scored: "title_matches (details y) = 0 \<and> content_matches (details y) = 0
      \<and> relevance_score y = recency_bonus (details y)
      \<and> recency_bonus (details y) \<in> {3, 5} \<and> publish_date y \<noteq> None"
    if "y \<in> set ?m" for y
    using member [OF that] scores_without_keywords by blast
  then have sorted: "sort_matched ?m = Inr ?s"
    by (intro sort_matched_all_dated) blast
  have len: "length (matched_in_order w query) = length ?recent"
  proof -
    have "filter (\<lambda>e. fetch_article_content w e (keywords_of query) \<noteq> None) (scheduled w)
        = ?recent"
      using sched by (intro filter_cong) simp_all
    then show ?thesis
      unfolding matched_in_order_def by (simp add: collect_matched_length)
  qed
  from m_mset have m_len: "length ?m = length (matched_in_order w query)"
    by (metis size_mset)
  define out where "out = (if ?m = [] then [Message (no_articles_message query)]
      else map Scored (take max_results ?s))"
  have run: "fetch_and_filter_articles w completion query = Inr out"
    unfolding out_def by (simp add: run_by_matched sorted)
  have none_recent: "out = [Message (''No articles found containing the query '' @ [CHR 0x27]
      @ query @ [CHR 0x27] @ ''.'')]"
    if "\<forall>e \<in> set (scheduled w). entry_recency w e = 0"
  proof -
    from that have "?recent = []" by (simp add: filter_empty_conv)
    with len m_len have "?m = []" by simp
    then show ?thesis unfolding out_def no_articles_message_def by simp
  qed
  have some_recent: "(\<exists>s. out = map Scored (take max_results s)
        \<and> mset s = mset (matched_in_order w query)
        \<and> sorted_wrt (\<lambda>a b. ranking_key b \<le> ranking_key a) s)
      \<and> length out = min max_results (length ?recent)"
    if "\<exists>e \<in> set (scheduled w). 0 < entry_recency w e"
  proof -
    from that have "?recent \<noteq> []" by (auto simp: filter_empty_conv)
    with len m_len have nonempty: "?m \<noteq> []" by auto
    then have o: "out = map Scored (take max_results ?s)" unfolding out_def by simp
    have "mset ?s = mset (matched_in_order w query)"
      using m_mset by (simp add: sort_descending_mset)
    moreover have "sorted_wrt (\<lambda>a b. ranking_key b \<le> ranking_key a) ?s"
      by (rule sort_descending_sorted)
    moreover have "length ?s = length ?m"
      by (simp add: sort_descending_def)
    ultimately show ?thesis using o len m_len by auto
  qed
  have in_out: "\<forall>y. Scored y \<in> set out \<longrightarrow>
      title_matches (details y) = 0 \<and> content_matches (details y) = 0
      \<and> relevance_score y = recency_bonus (details y)
      \<and> recency_bonus (details y) \<in> {3, 5} \<and> publish_date y \<noteq> None"
  proof (intro allI impI)
    fix y
    assume "Scored y \<in> set out"
    then have "y \<in> set (take max_results ?s)"
      unfolding out_def by (auto split: if_splits)
    then have "y \<in> set ?m"
      using in_set_takeD [of y max_results ?s] by (simp add: sort_descending_set)
    then show "title_matches (details y) = 0 \<and> content_matches (details y) = 0
      \<and> relevance_score y = recency_bonus (details y)
      \<and> recency_bonus (details y) \<in> {3, 5} \<and> publish_date y \<noteq> None"
      by (rule scored)
  qed
  from k scorer sched run none_recent some_recent in_out
  show "keywords_of query = []
     \<and> (entry_link x = Some lnk \<and> lnk \<noteq> [] \<longrightarrow>
          (fetch_article_content w x (keywords_of query) = None)
            = (recency_score_of w lnk (publish_date_of x) = 0))
     \<and> (\<forall>e \<in> set (scheduled w).
          (fetch_article_content w e (keywords_of query) \<noteq> None) = (0 < entry_recency w e))
     \<and> (\<exists>out. fetch_and_filter_articles w completion query = Inr out
          \<and> ((\<forall>e \<in> set (scheduled w). entry_recency w e = 0) \<longrightarrow>
                out = [Message (''No articles found containing the query '' @ [CHR 0x27] @ query
                         @ [CHR 0x27] @ ''.'')])
          \<and> ((\<exists>e \<in> set (scheduled w). 0 < entry_recency w e) \<longrightarrow>
                (\<exists>s. out = map Scored (take max_results s)
                   \<and> mset s = mset (matched_in_order w query)
                   \<and> sorted_wrt (\<lambda>a b. ranking_key b \<le> ranking_key a) s)
                \<and> length out
                    = min max_results (length (filter (\<lambda>e. 0 < entry_recency w e) (scheduled w))))
          \<and> (\<forall>a. Scored a \<in> set out \<longrightarrow>
                title_matches (details a) = 0 \<and> content_matches (details a) = 0
                \<and> relevance_score a = recency_bonus (details a)
                \<and> recency_bonus (details a) \<in> {3, 5} \<and> publish_date a \<noteq> None))"
    by blast
qed

theorem empty_query_returns_recent_witness:
  "keywords_of '' '' = []
   \<and> fetch_article_content recent_world
       (plain_entry ''Tides'' ''a'' (Some (Some new_year_2020))) (keywords_of '' '') \<noteq> None
   \<and> (\<exists>out. fetch_and_filter_articles recent_world [0] '' '' = Inr out \<and> length out = 1
        \<and> (\<exists>s. out = map Scored (take max_results s)
              \<and> mset s = mset (matched_in_order recent_world '' '')))
   \<and> fetch_article_content shared_link_world
       (plain_entry ''Ocean'' ''a'' (Some (Some new_year_2020))) (keywords_of '''') = None
   \<and> fetch_and_filter_articles shared_link_world [1, 0] ''''
       = Inr [Message (''No articles found containing the query '' @ [CHR 0x27] @ ''''
                @ [CHR 0x27] @ ''.'')]"
proof -
  let ?e = "plain_entry ''Tides'' ''a'' (Some (Some new_year_2020))"
  let ?o = "plain_entry ''Ocean'' ''a'' (Some (Some new_year_2020))"
  have blank: "\<forall>c \<in> set '' ''. is_space c" "\<forall>c \<in> set ''''. is_space c"
    by code_simp+
  have valid: "valid_completion (length (scheduled recent_world)) [0]"
    "valid_completion (length (scheduled shared_link_world)) [1, 0]"
    by code_simp+
  have recent: "scheduled recent_world = [?e]" "entry_recency recent_world ?e = 5"
    by code_simp+
  have old: "\<forall>e \<in> set (scheduled shared_link_world). entry_recency shared_link_world e = 0"
    "?o \<in> set (scheduled shared_link_world)"
    by code_simp+
  have count: "min max_results (length (filter (\<lambda>e. 0 < entry_recency recent_world e)
      (scheduled recent_world))) = 1"
    by (simp add: recent max_results_def)
  have hyp1: "(\<forall>c \<in> set '' ''. is_space c)
      \<and> valid_completion (length (scheduled recent_world)) [0]"
    using blank(1) valid(1) by blast
  have hyp2: "(\<forall>c \<in> set ''''. is_space c)
      \<and> valid_completion (length (scheduled shared_link_world)) [1, 0]"
    using blank(2) valid(2) by blast
  note c1 = empty_query_returns_recent [of "'' ''" recent_world "[0]" ?e "''a''", THEN mp, OF hyp1]
  note c2 = empty_query_returns_recent [of "''''" shared_link_world "[1, 0]" ?o "''a''",
      THEN mp, OF hyp2]
  have mem: "?e \<in> set (scheduled recent_world)" "0 < entry_recency recent_world ?e"
    by (simp_all add: recent)
  from c1 have k1: "keywords_of '' '' = []" by blast
  from c1 have "\<forall>e \<in> set (scheduled recent_world).
      (fetch_article_content recent_world e (keywords_of '' '') \<noteq> None)
        = (0 < entry_recency recent_world e)"
    by blast
  with mem have scored1: "fetch_article_content recent_world ?e (keywords_of '' '') \<noteq> None"
    by blast
  from c1 obtain out where out: "fetch_and_filter_articles recent_world [0] '' '' = Inr out"
    "(\<exists>e \<in> set (scheduled recent_world). 0 < entry_recency recent_world e) \<longrightarrow>
       (\<exists>s. out = map Scored (take max_results s)
          \<and> mset s = mset (matched_in_order recent_world '' '')
          \<and> sorted_wrt (\<lambda>a b. ranking_key b \<le> ranking_key a) s)
       \<and> length out = min max_results
           (length (filter (\<lambda>e. 0 < entry_recency recent_world e) (scheduled recent_world)))"
    by blast
  from mem have "\<exists>e \<in> set (scheduled recent_world). 0 < entry_recency recent_world e"
    by blast
  with out(2) count have "length out = 1
      \<and> (\<exists>s. out = map Scored (take max_results s)
            \<and> mset s = mset (matched_in_order recent_world '' ''))"
    by auto
  with out(1) have run1: "\<exists>out. fetch_and_filter_articles recent_world [0] '' '' = Inr out
      \<and> length out = 1
      \<and> (\<exists>s. out = map Scored (take max_results s)
            \<and> mset s = mset (matched_in_order recent_world '' ''))"
    by blast
  from c2 have "\<forall>e \<in> set (scheduled shared_link_world).
      (fetch_article_content shared_link_world e (keywords_of '''') \<noteq> None)
        = (0 < entry_recency shared_link_world e)"
    by blast
  with old have unscored2: "fetch_article_content shared_link_world ?o (keywords_of '''') = None"
    by force
  from c2 old(1) have run2: "fetch_and_filter_articles shared_link_world [1, 0] ''''
      = Inr [Message (''No articles found containing the query '' @ [CHR 0x27] @ ''''
               @ [CHR 0x27] @ ''.'')]"
    by blast
  from k1 scored1 run1 unscored2 run2 show ?thesis by blast
qed

text \<open>
  Claim C8 as stated fails: for the empty query and a feed with one entry an hour old the
  run returns that entry as a match, with the score 5, and raises nothing.
\<close>

theorem empty_query_counterexample:
  "keywords_of '''' = []
   \<and> fetch_and_filter_articles recent_world [0] ''''
     = Inr [Scored \<lparr>title = ''Tides'', content = [], link = ''a'',
                   publish_date = Some new_year_2020, relevance_score = 5,
                   details = \<lparr>title_matches = 0, content_matches = 0, recency_bonus = 5\<rparr>\<rparr>]"
  by code_simp

section \<open>The fallback strategies of the extractor\<close>

lemma try_selectors_None:
  "try_selectors sp sels calls = (calls', None) \<Longrightarrow>
     set calls' = set calls \<union> SelectOne ` set sels"
  by (induction sels arbitrary: calls) (auto split: option.splits if_splits)

lemma try_selectors_calls_kept:
  "try_selectors sp sels calls = (calls', r) \<Longrightarrow> set calls \<subseteq> set calls'"
proof (induction sels arbitrary: calls)
  case Nil
  then show ?case by simp
next
  case (Cons selector sels)
  show ?case
  proof (cases "try_selectors sp sels (calls @ [SelectOne selector]) = (calls', r)")
    case True
    from Cons.IH [OF True] show ?thesis by simp
  next
    case False
    with Cons.prems have "calls' = calls @ [SelectOne selector]"
      by (auto split: option.splits if_splits)
    then show ?thesis by auto
  qed
qed

text \<open>
  Claim C5, as amended. The extractor is a total function to strings: an exception of the
  primary retrieval or of the second retrieval ends in the empty string. When the primary
  strategy yields at most 100 characters, the second retrieval is always attempted; when
  that retrieval does not raise, the empty string is returned only after every selector
  and the paragraphs have been tried.
\<close>

theorem extractor_falls_back:
  "(newspaper_text p = Inl ex \<longrightarrow> get_article_content p = [])
   \<and> (newspaper_text p = Inr t \<and> length t \<le> 100 \<and> requests_get p = Inl ex \<longrightarrow>
        get_article_content p = [])
   \<and> (newspaper_text p = Inr t \<and> length t \<le> 100 \<longrightarrow> RequestsGet \<in> set (calls_made p))
   \<and> (newspaper_text p = Inr t \<and> length t \<le> 100 \<and> requests_get p = Inr sp
        \<and> get_article_content p = [] \<longrightarrow>
        (\<forall>selector \<in> set selectors. SelectOne selector \<in> set (calls_made p))
        \<and> FindAllP \<in> set (calls_made p))"
proof (intro conjI impI)
  assume "newspaper_text p = Inl ex"
  then show "get_article_content p = []"
    unfolding get_article_content_def get_article_content_log_def by simp
next
  assume "newspaper_text p = Inr t \<and> length t \<le> 100 \<and> requests_get p = Inl ex"
  then show "get_article_content p = []"
    unfolding get_article_content_def get_article_content_log_def by simp
next
  assume a: "newspaper_text p = Inr t \<and> length t \<le> 100"
  show "RequestsGet \<in> set (calls_made p)"
  proof (cases "requests_get p")
    case (Inl e)
    with a show ?thesis
      unfolding calls_made_def get_article_content_log_def by simp
  next
    case (Inr sp')
    obtain calls r where tr: "try_selectors sp' selectors [ArticleParse, RequestsGet] = (calls, r)"
      by (cases "try_selectors sp' selectors [ArticleParse, RequestsGet]") auto
    have "RequestsGet \<in> set calls"
      using try_selectors_calls_kept [OF tr] by simp
    with a Inr tr show ?thesis
      unfolding calls_made_def get_article_content_log_def
      by (auto simp: Let_def split: option.splits)
  qed
next
  assume a: "newspaper_text p = Inr t \<and> length t \<le> 100 \<and> requests_get p = Inr sp
      \<and> get_article_content p = []"
  obtain calls r where tr: "try_selectors sp selectors [ArticleParse, RequestsGet] = (calls, r)"
    by (cases "try_selectors sp selectors [ArticleParse, RequestsGet]") auto
  have "r = None"
  proof (cases r)
    case None
    then show ?thesis .
  next
    case (Some u)
    with tr try_selectors_Some have "length u > 100" by blast
    moreover from a tr Some have "get_article_content p = u"
      unfolding get_article_content_def get_article_content_log_def by simp
    ultimately show ?thesis using a by simp
  qed
  with tr try_selectors_None [of sp selectors "[ArticleParse, RequestsGet]" calls]
  have calls: "set calls = {ArticleParse, RequestsGet} \<union> SelectOne ` set selectors" by auto
  from a tr \<open>r = None\<close> have "calls_made p = calls @ [FindAllP]"
    unfolding calls_made_def get_article_content_log_def by (simp add: Let_def)
  with calls show "\<forall>selector \<in> set selectors. SelectOne selector \<in> set (calls_made p)"
    and "FindAllP \<in> set (calls_made p)"
    by auto
qed

theorem extractor_falls_back_witness:
  "newspaper_text short_page_thin_document = Inr (replicate 50 CHR ''x'')
   \<and> get_article_content short_page_thin_document = []
   \<and> RequestsGet \<in> set (calls_made short_page_thin_document)
   \<and> SelectOne ''article'' \<in> set (calls_made short_page_thin_document)
   \<and> FindAllP \<in> set (calls_made short_page_thin_document)
   \<and> get_article_content unreachable_page = []
   \<and> get_article_content short_page_get_fails = []"
proof -
  let ?sp = "\<lparr>select_one = (\<lambda>selector. None), find_all_p = ['' brief '']\<rparr>"
  have primary: "newspaper_text short_page_thin_document = Inr (replicate 50 CHR ''x'')"
    "length (replicate 50 CHR ''x'') \<le> 100"
    "requests_get short_page_thin_document = Inr ?sp"
    by (simp_all add: short_page_thin_document_def)
  have empty: "get_article_content short_page_thin_document = []"
    by code_simp
  have sel: "''article'' \<in> set selectors"
    by (simp add: selectors_def)
  have failed: "newspaper_text unreachable_page = Inl RequestError"
    by (simp add: unreachable_page_def)
  have get_failed: "newspaper_text short_page_get_fails = Inr (replicate 50 CHR ''x'')"
    "requests_get short_page_get_fails = Inl RequestError"
    by (simp_all add: short_page_get_fails_def)
  from extractor_falls_back [of short_page_thin_document RequestError "replicate 50 CHR ''x''" ?sp]
    extractor_falls_back [of unreachable_page RequestError]
    extractor_falls_back [of short_page_get_fails RequestError "replicate 50 CHR ''x''"]
    primary empty sel failed get_failed
  show ?thesis by auto
qed

text \<open>
  Claim C5 as stated fails: the primary strategy yields fifty characters and the second
  retrieval raises; the empty string is returned and the paragraphs were never tried.
\<close>

theorem paragraphs_not_attempted_counterexample:
  "newspaper_text short_page_get_fails = Inr (replicate 50 CHR ''x'')
   \<and> length (replicate 50 CHR ''x'') \<le> 100
   \<and> get_article_content short_page_get_fails = []
   \<and> calls_made short_page_get_fails = [ArticleParse, RequestsGet]
   \<and> FindAllP \<notin> set (calls_made short_page_get_fails)"
  by code_simp

section \<open>The order of completion\<close>

lemma sort_descending_inj:
  assumes "mset xs = mset ys" "inj_on k (set xs)"
  shows "sort_descending k xs = sort_descending k ys"
proof -
  have "sort_key k (rev xs) = sort_key k (rev ys)"
  proof (rule sort_key_inj_key_eq)
    show "mset (rev xs) = mset (sort_key k (rev ys))" using assms(1) by simp
    show "inj_on k (set (rev xs))" using assms(2) by simp
    show "sorted (map k (sort_key k (rev ys)))" by (rule sorted_sort_key)
  qed
  then show ?thesis unfolding sort_descending_def by simp
qed

lemma sort_matched_raises_by_set:
  "set xs = set ys \<Longrightarrow>
     list_ex (\<lambda>a. list_ex (\<lambda>b. incomparable a b) xs) xs
       = list_ex (\<lambda>a. list_ex (\<lambda>b. incomparable a b) ys) ys"
  unfolding list_ex_iff by simp

lemma sort_matched_inj:
  assumes "mset xs = mset ys" "inj_on ranking_key (set xs)"
  shows "sort_matched xs = sort_matched ys"
proof -
  from assms(1) have "set xs = set ys" by (rule mset_eq_setD)
  from sort_matched_raises_by_set [OF this] sort_descending_inj [OF assms]
  show ?thesis unfolding sort_matched_def by simp
qed

lemma completed_matched:
  assumes "valid_completion (length (scheduled w)) completion"
  shows "mset (collect_matched (as_completed
            (map (\<lambda>e. fetch_article_content w e (keywords_of query)) (scheduled w)) completion))
         = mset (matched_in_order w query)"
  unfolding matched_in_order_def using assms by (rule completed_matched_mset)

lemma sort_descending_stable:
  "filter (\<lambda>a. k a = v) (sort_descending k xs) = filter (\<lambda>a. k a = v) xs"
proof -
  have "filter (\<lambda>a. k a = v) (sort_key k (rev xs)) = filter (\<lambda>a. k a = v) (rev xs)"
    by (rule sort_key_stable)
  then have "rev (filter (\<lambda>a. k a = v) (sort_key k (rev xs))) = filter (\<lambda>a. k a = v) xs"
    by (simp add: rev_filter [symmetric])
  then show ?thesis
    unfolding sort_descending_def by (simp add: rev_filter)
qed

lemma sort_by_mset: "mset xs = mset ys \<Longrightarrow> sort xs = sort ys"
  by (rule properties_for_sort) simp_all

lemma sort_descending_keys: "map k (sort_descending k xs) = rev (sort (map k xs))"
proof -
  have "sort (map k (rev xs)) = map k (sort_key k (rev xs))"
    by (rule properties_for_sort) simp_all
  moreover have "sort (map k (rev xs)) = sort (map k xs)"
    by (rule sort_by_mset) simp
  ultimately show ?thesis
    unfolding sort_descending_def by (simp add: rev_map)
qed

lemma sort_descending_length: "length (sort_descending k xs) = length xs"
  unfolding sort_descending_def by simp

lemma take_of_descending:
  fixes k :: "'a \<Rightarrow> 'k::linorder"
  assumes sorted: "sorted_wrt (\<lambda>a b. k b \<le> k a) s"
    and n: "0 < n" "n < length s"
    and differ: "k (s ! (n - 1)) \<noteq> k (s ! n)"
  shows "take n s = filter (\<lambda>a. k (s ! (n - 1)) \<le> k a) s"
proof -
  let ?P = "\<lambda>a. k (s ! (n - 1)) \<le> k a"
  have first: "\<forall>a \<in> set (take n s). ?P a"
  proof
    fix a
    assume "a \<in> set (take n s)"
    then obtain i where i: "i < n" "a = s ! i"
      using n by (auto simp: in_set_conv_nth)
    show "?P a"
    proof (cases "i = n - 1")
      case True
      with i show ?thesis by simp
    next
      case False
      with i n have "i < n - 1" "n - 1 < length s" by auto
      from sorted_wrt_nth_less [OF sorted this] i show ?thesis by simp
    qed
  qed
  have step: "k (s ! n) \<le> k (s ! (n - 1))"
    using sorted_wrt_nth_less [OF sorted, of "n - 1" n] n by simp
  have rest: "\<forall>a \<in> set (drop n s). \<not> ?P a"
  proof
    fix a
    assume "a \<in> set (drop n s)"
    then obtain j where "j < length s - n" "a = s ! (n + j)"
      by (auto simp: in_set_conv_nth)
    then have j: "n + j < length s" "a = s ! (n + j)" by auto
    have "k a \<le> k (s ! n)"
    proof (cases "j = 0")
      case True
      with j show ?thesis by simp
    next
      case False
      then have "n < n + j" by simp
      from sorted_wrt_nth_less [OF sorted this j(1)] j show ?thesis by simp
    qed
    with step differ show "\<not> ?P a" by auto
  qed
  have "filter ?P s = filter ?P (take n s @ drop n s)" by simp
  also have "\<dots> = filter ?P (take n s) @ filter ?P (drop n s)" by (rule filter_append)
  also have "\<dots> = take n s"
    using first rest by simp
  finally show ?thesis by simp
qed

lemma top_cut_mset:
  fixes k :: "'a \<Rightarrow> 'k::linorder"
  assumes eq: "mset xs = mset ys" and n: "0 < n"
    and no_tie: "n < length xs \<longrightarrow>
      rev (sort (map k xs)) ! (n - 1) \<noteq> rev (sort (map k xs)) ! n"
  shows "mset (take n (sort_descending k xs)) = mset (take n (sort_descending k ys))"
proof (cases "n < length xs")
  case False
  from eq have "length xs = length ys" by (metis size_mset)
  with False show ?thesis
    using eq by (simp add: sort_descending_length sort_descending_mset)
next
  case True
  let ?ks = "rev (sort (map k xs))"
  from eq have len: "length ys = length xs" by (metis size_mset)
  have same_keys: "rev (sort (map k ys)) = ?ks"
    using eq by (simp add: sort_by_mset [of "map k ys" "map k xs"])
  have cut: "take n (sort_descending k zs) = filter (\<lambda>a. ?ks ! (n - 1) \<le> k a) (sort_descending k zs)"
    if z: "length zs = length xs" "rev (sort (map k zs)) = ?ks" for zs
  proof -
    let ?s = "sort_descending k zs"
    have keys: "map k ?s = ?ks" using z(2) by (simp add: sort_descending_keys)
    have l: "length ?s = length xs" using z(1) by (simp add: sort_descending_length)
    have at: "k (?s ! i) = ?ks ! i" if "i < length xs" for i
      using that l keys by (metis nth_map)
    from True n at [of "n - 1"] at [of n] no_tie
    have "k (?s ! (n - 1)) \<noteq> k (?s ! n)" by simp
    from take_of_descending [OF sort_descending_sorted n(1) _ this, of ] True l
    have "take n ?s = filter (\<lambda>a. k (?s ! (n - 1)) \<le> k a) ?s" by simp
    with at [of "n - 1"] True show ?thesis by simp
  qed
  from cut [of xs] cut [of ys] len same_keys
  have "mset (take n (sort_descending k xs))
      = filter_mset (\<lambda>a. ?ks ! (n - 1) \<le> k a) (mset (sort_descending k xs))"
    and "mset (take n (sort_descending k ys))
      = filter_mset (\<lambda>a. ?ks ! (n - 1) \<le> k a) (mset (sort_descending k ys))"
    by simp_all
  with eq show ?thesis by (simp add: sort_descending_mset)
qed
lemma descending_partition:
  fixes k :: "'a \<Rightarrow> 'k::linorder"
  assumes "sorted_wrt (\<lambda>a b. k b \<le> k a) s"
  shows "s = filter (\<lambda>a. v < k a) s @ filter (\<lambda>a. k a = v) s @ filter (\<lambda>a. k a < v) s"
  using assms
proof (induction s)
  case Nil
  show ?case by simp
next
  case (Cons x xs)
  then have below: "\<forall>y \<in> set xs. k y \<le> k x"
    and IH: "xs = filter (\<lambda>a. v < k a) xs @ filter (\<lambda>a. k a = v) xs @ filter (\<lambda>a. k a < v) xs"
    by simp_all
  consider "v < k x" | "k x = v" | "k x < v" by (metis less_linear)
  then show ?case
  proof cases
    case 1
    then have "k x \<noteq> v" "\<not> k x < v" by auto
    with 1 IH show ?thesis by simp
  next
    case 2
    with below have "filter (\<lambda>a. v < k a) xs = []"
      by (auto simp: filter_empty_conv)
    moreover from 2 have "\<not> v < k x" "\<not> k x < v" by auto
    ultimately show ?thesis using 2 IH by simp
  next
    case 3
    with below have "filter (\<lambda>a. v < k a) xs = []" "filter (\<lambda>a. k a = v) xs = []"
      by (auto simp: filter_empty_conv)
    moreover from 3 have "\<not> v < k x" "k x \<noteq> v" by auto
    ultimately show ?thesis using 3 IH by simp
  qed
qed

lemma tie_at_cut_differs:
  fixes k :: "'a \<Rightarrow> 'k::linorder"
  assumes dist: "distinct xs" and n: "0 < n" "n < length xs"
    and tie: "rev (sort (map k xs)) ! (n - 1) = rev (sort (map k xs)) ! n"
  shows "\<exists>g. g \<in> set (take n (sort_descending k xs))
           \<and> g \<notin> set (take n (sort_descending k (rev xs)))"
proof -
  let ?ks = "rev (sort (map k xs))"
  define v where "v = ?ks ! n"
  let ?s1 = "sort_descending k xs"
  let ?s2 = "sort_descending k (rev xs)"
  define G where "G = filter (\<lambda>a. k a = v) xs"
  define A1 where "A1 = filter (\<lambda>a. v < k a) ?s1"
  define A2 where "A2 = filter (\<lambda>a. v < k a) ?s2"
  define B1 where "B1 = filter (\<lambda>a. k a < v) ?s1"
  define B2 where "B2 = filter (\<lambda>a. k a < v) ?s2"
  have s1: "?s1 = A1 @ G @ B1"
    unfolding A1_def B1_def G_def
    by (rule descending_partition [OF sort_descending_sorted, of k xs v,
          unfolded sort_descending_stable])
  have "filter (\<lambda>a. k a = v) (rev xs) = rev G"
    unfolding G_def by (simp add: rev_filter)
  then have s2: "?s2 = A2 @ rev G @ B2"
    unfolding A2_def B2_def
    by (metis descending_partition [OF sort_descending_sorted, of k "rev xs" v,
          unfolded sort_descending_stable])
  have "mset A1 = mset A2"
    unfolding A1_def A2_def by (simp add: sort_descending_mset)
  then have lenA: "length A2 = length A1" by (metis size_mset)
  have keys: "map k ?s1 = ?ks" by (rule sort_descending_keys)
  have len1: "length ?s1 = length xs" by (rule sort_descending_length)
  have at: "k (?s1 ! i) = ?ks ! i" if "i < length xs" for i
    using that len1 keys by (metis nth_map)
  have before: "length A1 \<le> n - 1"
  proof (rule ccontr)
    assume "\<not> length A1 \<le> n - 1"
    then have "n - 1 < length A1" by simp
    then have "?s1 ! (n - 1) \<in> set A1"
      by (simp add: s1 nth_append)
    then have "v < k (?s1 ! (n - 1))" unfolding A1_def by simp
    with at [of "n - 1"] n tie show False unfolding v_def by simp
  qed
  have after: "n < length A1 + length G"
  proof (rule ccontr)
    assume "\<not> n < length A1 + length G"
    then have ge: "length A1 + length G \<le> n" by simp
    from n len1 have "n < length (A1 @ G @ B1)" by (simp add: s1 [symmetric])
    with ge have "n - length A1 - length G < length B1" by simp
    moreover from ge have "\<not> n < length A1" "\<not> n - length A1 < length G" by auto
    ultimately have "?s1 ! n \<in> set B1"
      by (simp add: s1 nth_append)
    then have "k (?s1 ! n) < v" unfolding B1_def by simp
    with at [of n] n show False unfolding v_def by simp
  qed
  from before after n have G: "G \<noteq> []" "0 < n - length A1" "n - length A1 < length G"
    by auto
  then obtain g rest where g: "G = g # rest" by (cases G) auto
  obtain j where j: "n - length A1 = Suc j" using G(2) by (cases "n - length A1") auto
  have "take n ?s1 = A1 @ take (n - length A1) (G @ B1)"
    using before n by (simp add: s1)
  then have in_first: "g \<in> set (take n ?s1)"
    by (simp add: g j)
  have "distinct G" unfolding G_def using dist by simp
  with g have fresh: "g \<notin> set rest" by simp
  have "take n ?s2 = A2 @ take (n - length A1) (rev G)"
    using before n G(3) lenA by (simp add: s2)
  moreover have "g \<notin> set A2"
  proof
    assume "g \<in> set A2"
    then have "v < k g" unfolding A2_def by simp
    moreover from g have "g \<in> set G" by simp
    then have "k g = v" unfolding G_def by simp
    ultimately show False by simp
  qed
  moreover have "g \<notin> set (take (n - length A1) (rev G))"
  proof -
    have "take (n - length A1) (rev G) = rev (drop (length G - (n - length A1)) G)"
      by (simp add: take_rev)
    moreover obtain i where "length G - (n - length A1) = Suc i"
      using G(3) by (cases "length G - (n - length A1)") auto
    ultimately have "set (take (n - length A1) (rev G)) = set (drop i rest)"
      by (simp add: g)
    with fresh show ?thesis
      using set_drop_subset [of i rest] by auto
  qed
  ultimately have "g \<notin> set (take n ?s2)" by simp
  with in_first show ?thesis by blast
qed
lemma identity_completion: "valid_completion n [0..<n]"
  unfolding valid_completion_def by (simp add: sorted_sort_id)

lemma reverse_completion: "valid_completion n (rev [0..<n])"
  unfolding valid_completion_def by (rule properties_for_sort) simp_all

lemma as_completed_identity: "as_completed xs [0..<length xs] = xs"
  unfolding as_completed_def by (rule map_nth)

lemma as_completed_reverse: "as_completed xs (rev [0..<length xs]) = rev xs"
  unfolding as_completed_def by (simp add: rev_map [symmetric] map_nth)

lemma collect_matched_rev: "collect_matched (rev rs) = rev (collect_matched rs)"
  unfolding collect_matched_def List.map_filter_def by (simp add: rev_map rev_filter)

lemma matched_identity:
  "matched_as_completed w [0..<length (scheduled w)] query = matched_in_order w query"
  unfolding matched_as_completed_def matched_in_order_def
  using as_completed_identity
    [of "map (\<lambda>e. fetch_article_content w e (keywords_of query)) (scheduled w)"]
  by simp

lemma matched_reverse:
  "matched_as_completed w (rev [0..<length (scheduled w)]) query = rev (matched_in_order w query)"
  unfolding matched_as_completed_def matched_in_order_def
  using as_completed_reverse
    [of "map (\<lambda>e. fetch_article_content w e (keywords_of query)) (scheduled w)"]
  by (simp add: collect_matched_rev)

lemma matched_in_order_links: "distinct (map link (matched_in_order w query))"
  unfolding matched_in_order_def
  by (intro matched_links_distinct) (simp add: scheduled_new_claims new_claims_distinct)

lemma run_raises:
  "(\<exists>ex. fetch_and_filter_articles w completion query = Inl ex)
     = (matched_as_completed w completion query \<noteq> []
        \<and> list_ex (\<lambda>a. list_ex (\<lambda>b. incomparable a b) (matched_as_completed w completion query))
            (matched_as_completed w completion query))"
  by (simp add: run_by_matched sort_matched_def)

lemma run_returns:
  assumes "fetch_and_filter_articles w completion query = Inr out"
    and "matched_as_completed w completion query \<noteq> []"
  shows "out = map Scored (take max_results
           (sort_descending ranking_key (matched_as_completed w completion query)))"
  using assms by (auto simp: run_by_matched sort_matched_def split: if_splits)

lemma run_returns_message:
  assumes "fetch_and_filter_articles w completion query = Inr out"
    and "matched_as_completed w completion query = []"
  shows "out = [Message (no_articles_message query)]"
  using assms by (simp add: run_by_matched)

text \<open>
  Claim C7, as amended. For a fixed world the sort leaves articles with equal keys in their
  order of completion, so the order of completion shows in the output only through ties:
  whether the run raises does not depend on it; where no two matched articles have the
  same key the run returns the same list for every order; where the key in the last place
  of the output differs from the key of the first article left out (or at most ten
  articles matched) two runs return the same set of links; and where those two keys are
  equal, the run in the order of submission and the run in the reverse order return
  different sets of links.
\<close>

theorem ranking_independent_of_completion:
  "(valid_completion (length (scheduled w)) c1 \<and> valid_completion (length (scheduled w)) c2
      \<and> distinct (map ranking_key (matched_in_order w query)) \<longrightarrow>
      fetch_and_filter_articles w c1 query = fetch_and_filter_articles w c2 query)
   \<and> (valid_completion (length (scheduled w)) c1 \<and> valid_completion (length (scheduled w)) c2
        \<and> \<not> tie_at_cut w query
        \<and> fetch_and_filter_articles w c1 query = Inr out1
        \<and> fetch_and_filter_articles w c2 query = Inr out2 \<longrightarrow>
        set (result_links out1) = set (result_links out2))
   \<and> (valid_completion (length (scheduled w)) c1 \<and> valid_completion (length (scheduled w)) c2
        \<longrightarrow>
        (\<exists>ex. fetch_and_filter_articles w c1 query = Inl ex)
          = (\<exists>ex. fetch_and_filter_articles w c2 query = Inl ex))
   \<and> (valid_completion (length (scheduled w)) c1 \<and> matched_in_order w query \<noteq> []
        \<and> fetch_and_filter_articles w c1 query = Inr out1 \<longrightarrow>
        (\<exists>s. out1 = map Scored (take max_results s)
           \<and> mset s = mset (matched_in_order w query)
           \<and> sorted_wrt (\<lambda>a b. ranking_key b \<le> ranking_key a) s
           \<and> (\<forall>v. filter (\<lambda>a. ranking_key a = v) s
                  = filter (\<lambda>a. ranking_key a = v) (matched_as_completed w c1 query))))
   \<and> (tie_at_cut w query
        \<and> fetch_and_filter_articles w [0..<length (scheduled w)] query = Inr out1
        \<and> fetch_and_filter_articles w (rev [0..<length (scheduled w)]) query = Inr out2 \<longrightarrow>
        set (result_links out1) \<noteq> set (result_links out2))"
proof (intro conjI impI)
  let ?m0 = "matched_in_order w query"
  let ?m1 = "matched_as_completed w c1 query"
  let ?m2 = "matched_as_completed w c2 query"
  {
    assume a: "valid_completion (length (scheduled w)) c1
      \<and> valid_completion (length (scheduled w)) c2
      \<and> distinct (map ranking_key ?m0)"
    then have m1: "mset ?m1 = mset ?m0" and m2: "mset ?m2 = mset ?m0"
      by (simp_all add: matched_as_completed_mset)
    from a have "inj_on ranking_key (set ?m0)"
      by (simp add: distinct_map)
    with m1 have inj: "inj_on ranking_key (set ?m1)" by (metis set_mset_mset)
    from m1 m2 have eq: "mset ?m1 = mset ?m2" by simp
    then have "?m1 = [] \<longleftrightarrow> ?m2 = []" by (metis mset_zero_iff)
    with sort_matched_inj [OF eq inj]
    show "fetch_and_filter_articles w c1 query = fetch_and_filter_articles w c2 query"
      by (simp add: run_by_matched)
  }
  {
    assume a: "valid_completion (length (scheduled w)) c1
      \<and> valid_completion (length (scheduled w)) c2
      \<and> \<not> tie_at_cut w query
      \<and> fetch_and_filter_articles w c1 query = Inr out1
      \<and> fetch_and_filter_articles w c2 query = Inr out2"
    then have m1: "mset ?m1 = mset ?m0" and m2: "mset ?m2 = mset ?m0"
      by (simp_all add: matched_as_completed_mset)
    then have eq: "mset ?m1 = mset ?m2" by simp
    show "set (result_links out1) = set (result_links out2)"
    proof (cases "?m0 = []")
      case True
      with m1 m2 have "?m1 = []" "?m2 = []" by simp_all
      with a run_returns_message [of w c1 query out1] run_returns_message [of w c2 query out2]
      show ?thesis by simp
    next
      case False
      with m1 m2 have ne: "?m1 \<noteq> []" "?m2 \<noteq> []" by auto
      from m1 have len: "length ?m1 = length ?m0" by (metis size_mset)
      have keys: "rev (sort (map ranking_key ?m1)) = ranked_keys w query"
        unfolding ranked_keys_def using m1 by (simp add: sort_by_mset [of "map ranking_key ?m1"])
      from a have "max_results < length ?m1 \<longrightarrow>
          rev (sort (map ranking_key ?m1)) ! (max_results - 1)
            \<noteq> rev (sort (map ranking_key ?m1)) ! max_results"
        unfolding keys tie_at_cut_def using len by (simp add: ranked_keys_def)
      from top_cut_mset [OF eq _ this]
      have "mset (take max_results (sort_descending ranking_key ?m1))
          = mset (take max_results (sort_descending ranking_key ?m2))"
        by (simp add: max_results_def)
      then have "set (take max_results (sort_descending ranking_key ?m1))
          = set (take max_results (sort_descending ranking_key ?m2))"
        by (metis set_mset_mset)
      with a ne run_returns [of w c1 query out1] run_returns [of w c2 query out2]
      show ?thesis by (simp add: result_links_Scored)
    qed
  }
  {
    assume a: "valid_completion (length (scheduled w)) c1
      \<and> valid_completion (length (scheduled w)) c2"
    then have m1: "mset ?m1 = mset ?m0" and m2: "mset ?m2 = mset ?m0"
      by (simp_all add: matched_as_completed_mset)
    then have "mset ?m1 = mset ?m2" by simp
    then have s: "set ?m1 = set ?m2" and e: "?m1 = [] \<longleftrightarrow> ?m2 = []"
      by (metis set_mset_mset, metis mset_zero_iff)
    from sort_matched_raises_by_set [OF s] e
    show "(\<exists>ex. fetch_and_filter_articles w c1 query = Inl ex)
        = (\<exists>ex. fetch_and_filter_articles w c2 query = Inl ex)"
      unfolding run_raises by simp
  }
  {
    assume a: "valid_completion (length (scheduled w)) c1 \<and> ?m0 \<noteq> []
      \<and> fetch_and_filter_articles w c1 query = Inr out1"
    then have m1: "mset ?m1 = mset ?m0" by (simp add: matched_as_completed_mset)
    with a have "?m1 \<noteq> []" by auto
    with a have "out1 = map Scored (take max_results (sort_descending ranking_key ?m1))"
      by (simp add: run_returns)
    moreover have "mset (sort_descending ranking_key ?m1) = mset ?m0"
      using m1 by (simp add: sort_descending_mset)
    moreover have "sorted_wrt (\<lambda>a b. ranking_key b \<le> ranking_key a)
        (sort_descending ranking_key ?m1)"
      by (rule sort_descending_sorted)
    moreover have "\<forall>v. filter (\<lambda>a. ranking_key a = v) (sort_descending ranking_key ?m1)
        = filter (\<lambda>a. ranking_key a = v) ?m1"
      by (simp add: sort_descending_stable)
    ultimately show "\<exists>s. out1 = map Scored (take max_results s)
        \<and> mset s = mset ?m0
        \<and> sorted_wrt (\<lambda>a b. ranking_key b \<le> ranking_key a) s
        \<and> (\<forall>v. filter (\<lambda>a. ranking_key a = v) s = filter (\<lambda>a. ranking_key a = v) ?m1)"
      by blast
  }
  {
    assume a: "tie_at_cut w query
      \<and> fetch_and_filter_articles w [0..<length (scheduled w)] query = Inr out1
      \<and> fetch_and_filter_articles w (rev [0..<length (scheduled w)]) query = Inr out2"
    then have long: "max_results < length ?m0"
      and tie: "rev (sort (map ranking_key ?m0)) ! (max_results - 1)
        = rev (sort (map ranking_key ?m0)) ! max_results"
      unfolding tie_at_cut_def ranked_keys_def by simp_all
    then have ne: "?m0 \<noteq> []" by auto
    have links: "distinct (map link ?m0)" by (rule matched_in_order_links)
    then have dist: "distinct ?m0" and inj: "inj_on link (set ?m0)"
      by (simp_all add: distinct_map)
    let ?s1 = "sort_descending ranking_key ?m0"
    let ?s2 = "sort_descending ranking_key (rev ?m0)"
    from a ne run_returns [of w "[0..<length (scheduled w)]" query out1]
    have o1: "out1 = map Scored (take max_results ?s1)"
      by (simp add: matched_identity)
    from a ne run_returns [of w "rev [0..<length (scheduled w)]" query out2]
    have o2: "out2 = map Scored (take max_results ?s2)"
      by (simp add: matched_reverse)
    from tie_at_cut_differs [OF dist _ long tie] obtain g where
      g: "g \<in> set (take max_results ?s1)" "g \<notin> set (take max_results ?s2)"
      by (auto simp: max_results_def)
    from g(1) have g0: "g \<in> set ?m0"
      using in_set_takeD [of g max_results ?s1] by (simp add: sort_descending_set)
    have "link g \<notin> link ` set (take max_results ?s2)"
    proof
      assume "link g \<in> link ` set (take max_results ?s2)"
      then obtain g' where g': "g' \<in> set (take max_results ?s2)" "link g' = link g" by auto
      then have "g' \<in> set ?m0"
        using in_set_takeD [of g' max_results ?s2] by (simp add: sort_descending_set)
      with inj g0 g'(2) have "g' = g" by (auto dest: inj_onD)
      with g' g(2) show False by simp
    qed
    moreover from g(1) have "link g \<in> link ` set (take max_results ?s1)" by simp
    ultimately have "link ` set (take max_results ?s1) \<noteq> link ` set (take max_results ?s2)"
      by blast
    then show "set (result_links out1) \<noteq> set (result_links out2)"
      by (simp add: o1 o2 result_links_Scored)
  }
qed
theorem ranking_independent_of_completion_witness:
  "fetch_and_filter_articles shared_link_world [0, 1] ''ocean''
     = fetch_and_filter_articles shared_link_world [1, 0] ''ocean''
   \<and> fetch_and_filter_articles shared_link_world [0, 1] ''ocean''
     = Inr [Scored \<lparr>title = ''Ocean ocean ocean'', content = [], link = ''b'',
                   publish_date = Some new_year_2020, relevance_score = 30,
                   details = \<lparr>title_matches = 3, content_matches = 0, recency_bonus = 0\<rparr>\<rparr>,
            Scored \<lparr>title = ''Ocean'', content = [], link = ''a'',
                   publish_date = Some new_year_2020, relevance_score = 10,
                   details = \<lparr>title_matches = 1, content_matches = 0, recency_bonus = 0\<rparr>\<rparr>]
   \<and> (\<exists>s. [Scored \<lparr>title = ''Ocean ocean ocean'', content = [], link = ''b'',
                   publish_date = Some new_year_2020, relevance_score = 30,
                   details = \<lparr>title_matches = 3, content_matches = 0, recency_bonus = 0\<rparr>\<rparr>,
            Scored \<lparr>title = ''Ocean'', content = [], link = ''a'',
                   publish_date = Some new_year_2020, relevance_score = 10,
                   details = \<lparr>title_matches = 1, content_matches = 0, recency_bonus = 0\<rparr>\<rparr>]
          = map Scored (take max_results s)
        \<and> mset s = mset (matched_in_order shared_link_world ''ocean'')
        \<and> sorted_wrt (\<lambda>a b. ranking_key b \<le> ranking_key a) s)
   \<and> tie_at_cut tie_world ''x''
   \<and> set (result_links (map (\<lambda>i. Scored (tied_article i)) [0, 1, 2, 3, 4, 5, 6, 7, 8, 9]))
     \<noteq> set (result_links (map (\<lambda>i. Scored (tied_article i)) [10, 9, 8, 7, 6, 5, 4, 3, 2, 1]))"
proof -
  let ?out = "[Scored \<lparr>title = ''Ocean ocean ocean'', content = [], link = ''b'',
                   publish_date = Some new_year_2020, relevance_score = 30,
                   details = \<lparr>title_matches = 3, content_matches = 0, recency_bonus = 0\<rparr>\<rparr>,
            Scored \<lparr>title = ''Ocean'', content = [], link = ''a'',
                   publish_date = Some new_year_2020, relevance_score = 10,
                   details = \<lparr>title_matches = 1, content_matches = 0, recency_bonus = 0\<rparr>\<rparr>]"
  let ?o1 = "map (\<lambda>i. Scored (tied_article i)) [0, 1, 2, 3, 4, 5, 6, 7, 8, 9]"
  let ?o2 = "map (\<lambda>i. Scored (tied_article i)) [10, 9, 8, 7, 6, 5, 4, 3, 2, 1]"
  have valid: "valid_completion (length (scheduled shared_link_world)) [0, 1]"
    "valid_completion (length (scheduled shared_link_world)) [1, 0]"
    by code_simp+
  have keys: "distinct (map ranking_key (matched_in_order shared_link_world ''ocean''))"
    by code_simp
  have no_tie: "\<not> tie_at_cut shared_link_world ''ocean''"
    by code_simp
  have matched: "matched_in_order shared_link_world ''ocean'' \<noteq> []"
    by code_simp
  have run: "fetch_and_filter_articles shared_link_world [1, 0] ''ocean'' = Inr ?out"
    by code_simp
  have tie: "tie_at_cut tie_world ''x''"
    by code_simp
  have forward: "fetch_and_filter_articles tie_world [0..<length (scheduled tie_world)] ''x''
      = Inr ?o1"
    by code_simp
  have backward: "fetch_and_filter_articles tie_world (rev [0..<length (scheduled tie_world)]) ''x''
      = Inr ?o2"
    by code_simp
  note shared = ranking_independent_of_completion
    [of shared_link_world "[0, 1]" "[1, 0]" "''ocean''" ?out ?out]
  note tied = ranking_independent_of_completion
    [of tie_world "[0, 1]" "[1, 0]" "''x''" ?o1 ?o2]
  have h1: "valid_completion (length (scheduled shared_link_world)) [0, 1]
      \<and> valid_completion (length (scheduled shared_link_world)) [1, 0]
      \<and> distinct (map ranking_key (matched_in_order shared_link_world ''ocean''))"
    by (intro conjI valid keys)
  from shared [THEN conjunct1, THEN mp, OF h1]
  have same: "fetch_and_filter_articles shared_link_world [0, 1] ''ocean''
      = fetch_and_filter_articles shared_link_world [1, 0] ''ocean''" .
  from same run
  have first: "fetch_and_filter_articles shared_link_world [0, 1] ''ocean'' = Inr ?out"
    by (rule trans)
  have h4: "valid_completion (length (scheduled shared_link_world)) [0, 1]
      \<and> matched_in_order shared_link_world ''ocean'' \<noteq> []
      \<and> fetch_and_filter_articles shared_link_world [0, 1] ''ocean'' = Inr ?out"
    by (intro conjI valid(1) matched first)
  from shared [THEN conjunct2, THEN conjunct2, THEN conjunct2, THEN conjunct1, THEN mp, OF h4]
  obtain s where "?out = map Scored (take max_results s)
      \<and> mset s = mset (matched_in_order shared_link_world ''ocean'')
      \<and> sorted_wrt (\<lambda>a b. ranking_key b \<le> ranking_key a) s
      \<and> (\<forall>v. filter (\<lambda>a. ranking_key a = v) s
             = filter (\<lambda>a. ranking_key a = v)
                 (matched_as_completed shared_link_world [0, 1] ''ocean''))" ..
  then have "?out = map Scored (take max_results s)
      \<and> mset s = mset (matched_in_order shared_link_world ''ocean'')
      \<and> sorted_wrt (\<lambda>a b. ranking_key b \<le> ranking_key a) s"
    by (elim conjE) (intro conjI)
  then have stable: "\<exists>s. ?out = map Scored (take max_results s)
      \<and> mset s = mset (matched_in_order shared_link_world ''ocean'')
      \<and> sorted_wrt (\<lambda>a b. ranking_key b \<le> ranking_key a) s" ..
  have h5: "tie_at_cut tie_world ''x''
      \<and> fetch_and_filter_articles tie_world [0..<length (scheduled tie_world)] ''x'' = Inr ?o1
      \<and> fetch_and_filter_articles tie_world (rev [0..<length (scheduled tie_world)]) ''x''
          = Inr ?o2"
    by (intro conjI tie forward backward)
  from tied [THEN conjunct2, THEN conjunct2, THEN conjunct2, THEN conjunct2, THEN mp, OF h5]
  have differ: "set (result_links ?o1) \<noteq> set (result_links ?o2)" .
  from same first stable tie differ show ?thesis by (intro conjI)
qed

text \<open>
  Claim C7 as stated fails: eleven matched articles with the same score and the same date.
  The sort leaves them in the order of completion, and the cut to ten drops the one that
  finished last: the article under the eleventh link is in the output when its task finishes
  first and not when it finishes last.
\<close>

theorem completion_order_counterexample:
  "valid_completion (length (scheduled tie_world)) [0, 1, 2, 3, 4, 5, 6, 7, 8, 9, 10]
   \<and> valid_completion (length (scheduled tie_world)) [10, 0, 1, 2, 3, 4, 5, 6, 7, 8, 9]
   \<and> fetch_and_filter_articles tie_world [0, 1, 2, 3, 4, 5, 6, 7, 8, 9, 10] ''x''
     = Inr (map (\<lambda>i. Scored (tied_article i)) [0, 1, 2, 3, 4, 5, 6, 7, 8, 9])
   \<and> fetch_and_filter_articles tie_world [10, 0, 1, 2, 3, 4, 5, 6, 7, 8, 9] ''x''
     = Inr (map (\<lambda>i. Scored (tied_article i)) [10, 0, 1, 2, 3, 4, 5, 6, 7, 8])
   \<and> link (tied_article 10)
       \<in> set (result_links (map (\<lambda>i. Scored (tied_article i)) [10, 0, 1, 2, 3, 4, 5, 6, 7, 8]))
   \<and> link (tied_article 10)
       \<notin> set (result_links (map (\<lambda>i. Scored (tied_article i)) [0, 1, 2, 3, 4, 5, 6, 7, 8, 9]))"
  by code_simp

end
